theory Spec2Isabelle
  imports Complex_Main
begin

section \<open>Shallow embedding of the CCTV activity analyzer\<close>

text \<open>
  The embedding follows \<^verbatim>\<open>analyzer.py\<close> and \<^verbatim>\<open>utils.py\<close>. Python floats (the frame
  rate, durations, box centres, percentages) are modelled by exact rationals; Python's
  unbounded integers by \<open>int\<close>. A frame is modelled by what the detector returns on it
  (a list of results, each a list of boxes) together with the key read by
  \<^verbatim>\<open>cv2.waitKey\<close> while it is displayed. The rows that \<^verbatim>\<open>log_event\<close> appends
  to the CSV log and the overlay texts drawn on each frame are kept in two lists of the
  analyzer state.
\<close>

subsection \<open>Python arithmetic\<close>

datatype error = ZeroDivisionError

definition py_int :: "rat \<Rightarrow> int" where
  \<comment> \<open>\<^verbatim>\<open>int(x)\<close> on a float: truncation towards zero.\<close>
  "py_int x = (if 0 \<le> x then \<lfloor>x\<rfloor> else \<lceil>x\<rceil>)"

definition py_truediv :: "rat \<Rightarrow> rat \<Rightarrow> error + rat" where
  \<comment> \<open>\<^verbatim>\<open>a / b\<close>: raises on a zero divisor.\<close>
  "py_truediv a b = (if b = 0 then Inl ZeroDivisionError else Inr (a / b))"

definition py_floordiv :: "rat \<Rightarrow> rat \<Rightarrow> rat" where
  \<comment> \<open>\<^verbatim>\<open>a // b\<close> on floats, used with the non-zero literal divisors 60 and 3600 only.\<close>
  "py_floordiv a b = of_int \<lfloor>a / b\<rfloor>"

definition py_mod :: "rat \<Rightarrow> rat \<Rightarrow> rat" where
  \<comment> \<open>\<^verbatim>\<open>a % b\<close> on floats, used with the non-zero literal divisors 60 and 3600 only.\<close>
  "py_mod a b = a - b * of_int \<lfloor>a / b\<rfloor>"

fun digits :: "nat \<Rightarrow> string" where
  "digits n = (if n < 10 then [''0123456789'' ! n]
               else digits (n div 10) @ [''0123456789'' ! (n mod 10)])"

declare digits.simps [simp del]

definition fmt02 :: "int \<Rightarrow> string" where
  \<comment> \<open>The format \<^verbatim>\<open>{n:02}\<close> of an integer: zero padded to width two, the sign counted.\<close>
  "fmt02 n = (if n < 0 then CHR ''-'' # digits (nat (- n))
              else if n < 10 then CHR ''0'' # digits (nat n)
              else digits (nat n))"

subsection \<open>Data\<close>

definition PERSON_CLASS_ID :: int where "PERSON_CLASS_ID = 0"
definition MOBILE_CLASS_ID :: int where "MOBILE_CLASS_ID = 67"
definition LAPTOP_CLASS_ID :: int where "LAPTOP_CLASS_ID = 63"
definition KEYBOARD_CLASS_ID :: int where "KEYBOARD_CLASS_ID = 66"

definition FRAME_SKIP :: int where "FRAME_SKIP = 5"

type_synonym xyxy = "int \<times> int \<times> int \<times> int"

record box =
  cls :: int  \<comment> \<open>\<^verbatim>\<open>int(box.cls[0])\<close>\<close>
  xyxy :: xyxy  \<comment> \<open>\<^verbatim>\<open>box.xyxy[0].cpu().numpy().astype(int)\<close>\<close>

record frame =
  results :: "box list list"  \<comment> \<open>what \<^verbatim>\<open>self.model(frame)\<close> returns: each result's boxes\<close>
  key_q :: bool  \<comment> \<open>\<^verbatim>\<open>cv2.waitKey(1) & 0xFF == ord('q')\<close> after this frame\<close>

record video =
  isOpened :: bool
  CAP_PROP_FPS :: rat
  frames :: "frame list"

record event =
  ev_frame :: int  \<comment> \<open>index of the frame handed to \<^verbatim>\<open>log_event\<close>\<close>
  ev_label :: string
  duration_seconds :: rat

record stats =
  total_video_frames :: int
  off_camera_frames :: int
  mobile_in_hand_frames :: int
  working_frames :: int
  current_fps :: rat

record analyzer =
  ALERT_DURATION_SECONDS :: rat
  TARGET_FPS :: rat
  off_camera_start_frame :: int
  mobile_in_hand_start_frame :: int
  frame_count :: int
  alert_duration_frames :: int
  last_person_present :: bool
  last_mobile_in_hand :: bool
  last_laptop_detected :: bool
  stats :: stats
  log :: "event list"  \<comment> \<open>the rows appended to the log file, oldest first\<close>
  shown :: "(string \<times> string) list"  \<comment> \<open>per frame: activity label and alert timer text\<close>

definition new_analyzer :: "rat \<Rightarrow> rat \<Rightarrow> analyzer" where
  \<comment> \<open>\<^verbatim>\<open>CCTVAnalyzer.__init__\<close>\<close>
  "new_analyzer alert_duration_secs target_fps =
     \<lparr> ALERT_DURATION_SECONDS = alert_duration_secs,
       TARGET_FPS = target_fps,
       off_camera_start_frame = - 1,
       mobile_in_hand_start_frame = - 1,
       frame_count = 0,
       alert_duration_frames = 0,
       last_person_present = False,
       last_mobile_in_hand = False,
       last_laptop_detected = False,
       stats = \<lparr> total_video_frames = 0, off_camera_frames = 0,
                 mobile_in_hand_frames = 0, working_frames = 0,
                 current_fps = target_fps \<rparr>,
       log = [],
       shown = [] \<rparr>"

definition log_event :: "int \<Rightarrow> string \<Rightarrow> rat \<Rightarrow> analyzer \<Rightarrow> analyzer" where
  \<comment> \<open>\<^verbatim>\<open>log_event(frame, label, duration_seconds, ...)\<close>: one more row in the log. The row
      keeps the duration as passed; the two-decimal rounding of the written text is a
      float operation and is not modelled.\<close>
  "log_event fr label d s =
     s\<lparr>log := log s @ [\<lparr>ev_frame = fr, ev_label = label, duration_seconds = d\<rparr>]\<rparr>"

subsection \<open>Proximity check (section A of the frame loop)\<close>

text \<open>
  The float literals \<^verbatim>\<open>0.20\<close> and \<^verbatim>\<open>0.6\<close> are modelled by the rationals 20/100 and
  6/10. On integer coordinates of any realistic size the float results agree with the exact
  ones: a fifth of a multiple of five is computed exactly, any other fifth is not near an
  integer, and centres are multiples of one half.
\<close>

definition py_mobile_zone :: "xyxy \<Rightarrow> int" where
  "py_mobile_zone p =
     (case p of (px1, py1, px2, py2) \<Rightarrow> py1 + py_int (of_int (py2 - py1) * (20 / 100)))"

definition horizontal_prox :: "xyxy \<Rightarrow> xyxy \<Rightarrow> bool" where
  "horizontal_prox p m =
     (case p of (px1, py1, px2, py2) \<Rightarrow> case m of (mx1, my1, mx2, my2) \<Rightarrow>
        let p_center_x = (of_int (px1 + px2) :: rat) / 2;
            p_width = px2 - px1;
            m_center_x = (of_int (mx1 + mx2) :: rat) / 2
        in \<bar>m_center_x - p_center_x\<bar> < of_int p_width * (6 / 10))"

definition vertical_prox :: "xyxy \<Rightarrow> xyxy \<Rightarrow> bool" where
  "vertical_prox p m =
     (case m of (mx1, my1, mx2, my2) \<Rightarrow>
        let m_center_y = (of_int (my1 + my2) :: rat) / 2
        in m_center_y > of_int (py_mobile_zone p))"

definition intersection_area :: "xyxy \<Rightarrow> xyxy \<Rightarrow> int" where
  "intersection_area p m =
     (case p of (px1, py1, px2, py2) \<Rightarrow> case m of (mx1, my1, mx2, my2) \<Rightarrow>
        max 0 (min px2 mx2 - max px1 mx1) * max 0 (min py2 my2 - max py1 my1))"

definition touches :: "xyxy \<Rightarrow> xyxy \<Rightarrow> bool" where
  "touches p m = (intersection_area p m > 0)"

text \<open>
  The three nested loops over person boxes, results and boxes. The loop state is the pair
  \<open>(mobile_in_hand_current, mobile_event_draw_boxes)\<close>; each loop stops as the source's
  \<^verbatim>\<open>break\<close> does.
\<close>

fun scan_boxes :: "xyxy \<Rightarrow> box list \<Rightarrow> bool \<times> bool \<Rightarrow> bool \<times> bool" where
  "scan_boxes p [] st = st"
| "scan_boxes p (b # bs) st =
     (if cls b = MOBILE_CLASS_ID
         \<and> horizontal_prox p (xyxy b) \<and> vertical_prox p (xyxy b) \<and> touches p (xyxy b)
      then (True, True)
      else scan_boxes p bs st)"

fun scan_results :: "xyxy \<Rightarrow> box list list \<Rightarrow> bool \<times> bool \<Rightarrow> bool \<times> bool" where
  "scan_results p [] st = st"
| "scan_results p (r # rs) st =
     (let st' = scan_boxes p r st in if snd st' then st' else scan_results p rs st')"

fun scan_persons :: "xyxy list \<Rightarrow> box list list \<Rightarrow> bool \<times> bool \<Rightarrow> bool \<times> bool" where
  "scan_persons [] rs st = st"
| "scan_persons (p # ps) rs st =
     (let st' = scan_results p rs st in if snd st' then st' else scan_persons ps rs st')"

definition person_boxes_of :: "box list list \<Rightarrow> xyxy list" where
  "person_boxes_of rs = map xyxy (filter (\<lambda>b. cls b = PERSON_CLASS_ID) (concat rs))"

definition laptop_keyboard_of :: "box list list \<Rightarrow> bool" where
  "laptop_keyboard_of rs =
     list_ex (\<lambda>b. cls b \<noteq> PERSON_CLASS_ID
                   \<and> (cls b = LAPTOP_CLASS_ID \<or> cls b = KEYBOARD_CLASS_ID)) (concat rs)"

definition mobile_in_hand_of :: "box list list \<Rightarrow> bool" where
  "mobile_in_hand_of rs = fst (scan_persons (person_boxes_of rs) rs (False, False))"

definition detect :: "analyzer \<Rightarrow> frame \<Rightarrow> analyzer" where
  \<comment> \<open>Section A: the detector runs every \<open>FRAME_SKIP\<close> frames and refreshes the cached flags.\<close>
  "detect s f =
     (if frame_count s mod FRAME_SKIP = 0
      then s\<lparr> last_person_present := (length (person_boxes_of (results f)) > 0),
              last_mobile_in_hand := mobile_in_hand_of (results f),
              last_laptop_detected := laptop_keyboard_of (results f) \<rparr>
      else s)"

subsection \<open>Tracking and inference (sections C and D of the frame loop)\<close>

definition mobile_duration :: "rat \<Rightarrow> analyzer \<Rightarrow> error + analyzer" where
  "mobile_duration fps s =
     (if last_mobile_in_hand s \<and> mobile_in_hand_start_frame s = - 1
      then Inr (log_event (frame_count s) ''mobile_in_hand_start'' 0
                  (s\<lparr>mobile_in_hand_start_frame := frame_count s\<rparr>))
      else if \<not> last_mobile_in_hand s \<and> mobile_in_hand_start_frame s \<noteq> - 1
      then (let duration_frames = frame_count s - mobile_in_hand_start_frame s
            in case py_truediv (of_int duration_frames) fps of
                 Inl e \<Rightarrow> Inl e
               | Inr d \<Rightarrow>
                   Inr ((log_event (frame_count s) ''mobile_in_hand_end'' d s)
                          \<lparr>mobile_in_hand_start_frame := - 1\<rparr>))
      else Inr s)"

definition missing_alert :: "rat \<Rightarrow> analyzer \<Rightarrow> error + analyzer" where
  \<comment> \<open>The \<^verbatim>\<open>else\<close> branch of the hierarchy after the counter and the label are set.\<close>
  "missing_alert fps s =
     (let s1 = (if off_camera_start_frame s = - 1
                then s\<lparr>off_camera_start_frame := frame_count s\<rparr> else s);
          duration_frames = frame_count s1 - off_camera_start_frame s1
      in if duration_frames \<ge> alert_duration_frames s1
         then (case py_truediv (of_int duration_frames) fps of
                 Inl e \<Rightarrow> Inl e
               | Inr d \<Rightarrow>
                   Inr ((log_event (frame_count s1) ''person_missing_alert'' d s1)
                          \<lparr>off_camera_start_frame := - 1\<rparr>))
         else Inr s1)"

definition activity_inference :: "rat \<Rightarrow> analyzer \<Rightarrow> error + (analyzer \<times> string)" where
  "activity_inference fps s =
     (if last_person_present s
      then (let s1 = s\<lparr>off_camera_start_frame := - 1\<rparr>
            in if last_mobile_in_hand s
               then Inr (s1\<lparr>stats := (stats s1)
                              \<lparr>mobile_in_hand_frames := mobile_in_hand_frames (stats s1) + 1\<rparr>\<rparr>,
                         ''Using Mobile Phone'')
               else if last_laptop_detected s
               then Inr (s1\<lparr>stats := (stats s1)
                              \<lparr>working_frames := working_frames (stats s1) + 1\<rparr>\<rparr>,
                         ''Working on Laptop'')
               else Inr (s1, ''Present (Idle/Other)''))
      else (let s1 = s\<lparr>stats := (stats s)
                          \<lparr>off_camera_frames := off_camera_frames (stats s) + 1\<rparr>\<rparr>
            in case missing_alert fps s1 of
                 Inl e \<Rightarrow> Inl e
               | Inr s2 \<Rightarrow> Inr (s2, ''Off-Camera/Missing'')))"

definition alert_time_str :: "rat \<Rightarrow> analyzer \<Rightarrow> error + string" where
  "alert_time_str fps s =
     (if last_person_present s then Inr ''00:00''
      else (let duration_frames = frame_count s - off_camera_start_frame s
            in case py_truediv (of_int duration_frames) fps of
                 Inl e \<Rightarrow> Inl e
               | Inr d \<Rightarrow>
                   (let minutes = py_int (py_floordiv d 60);
                        seconds = py_int (py_mod d 60)
                    in Inr (fmt02 minutes @ '':'' @ fmt02 seconds))))"

definition process_frame :: "rat \<Rightarrow> analyzer \<Rightarrow> frame \<Rightarrow> error + analyzer" where
  \<comment> \<open>One iteration of the \<^verbatim>\<open>while\<close> loop of \<^verbatim>\<open>analyze_video\<close>, up to and including
      \<^verbatim>\<open>self.frame_count += 1\<close>.\<close>
  "process_frame fps s f =
     (let s0 = s\<lparr>stats := (stats s)\<lparr>total_video_frames := frame_count s + 1\<rparr>\<rparr>;
          s1 = detect s0 f
      in case mobile_duration fps s1 of
           Inl e \<Rightarrow> Inl e
         | Inr s2 \<Rightarrow>
            (case activity_inference fps s2 of
               Inl e \<Rightarrow> Inl e
             | Inr (s3, current_activity) \<Rightarrow>
                (case alert_time_str fps s3 of
                   Inl e \<Rightarrow> Inl e
                 | Inr t \<Rightarrow>
                    Inr (s3\<lparr> shown := shown s3 @ [(current_activity, t)],
                             frame_count := frame_count s3 + 1 \<rparr>))))"

fun frame_loop :: "rat \<Rightarrow> analyzer \<Rightarrow> frame list \<Rightarrow> error + analyzer" where
  "frame_loop fps s [] = Inr s"
| "frame_loop fps s (f # fs) =
     (case process_frame fps s f of
        Inl e \<Rightarrow> Inl e
      | Inr s' \<Rightarrow> if key_q f then Inr s' else frame_loop fps s' fs)"

definition working_fps :: "analyzer \<Rightarrow> video \<Rightarrow> rat" where
  \<comment> \<open>\<^verbatim>\<open>cap.get(cv2.CAP_PROP_FPS) or self.TARGET_FPS\<close>\<close>
  "working_fps s v = (if CAP_PROP_FPS v \<noteq> 0 then CAP_PROP_FPS v else TARGET_FPS s)"

definition analyze_video :: "analyzer \<Rightarrow> video \<Rightarrow> error + (analyzer \<times> stats option)" where
  \<comment> \<open>Returns the analyzer after the call and the returned value (\<open>None\<close> when the video
      cannot be opened, the statistics otherwise).\<close>
  "analyze_video s v =
     (if \<not> isOpened v then Inr (s, None)
      else (let fps = working_fps s v;
                s1 = s\<lparr> stats := (stats s)\<lparr>current_fps := fps\<rparr>,
                        alert_duration_frames := py_int (fps * ALERT_DURATION_SECONDS s) \<rparr>
            in case frame_loop fps s1 (frames v) of
                 Inl e \<Rightarrow> Inl e
               | Inr s2 \<Rightarrow> Inr (s2, Some (stats s2))))"

subsection \<open>Final report\<close>

definition frames_to_time_str :: "int \<Rightarrow> rat \<Rightarrow> error + string" where
  "frames_to_time_str n fps =
     (if fps = 0 then Inr ''00:00:00''
      else (case py_truediv (of_int n) fps of
              Inl e \<Rightarrow> Inl e
            | Inr total_seconds \<Rightarrow>
               (let hours = py_int (py_floordiv total_seconds 3600);
                    minutes = py_int (py_floordiv (py_mod total_seconds 3600) 60);
                    seconds = py_int (py_mod total_seconds 60)
                in Inr (fmt02 hours @ '':'' @ fmt02 minutes @ '':'' @ fmt02 seconds))))"

definition percent_of :: "int \<Rightarrow> int \<Rightarrow> error + rat" where
  \<comment> \<open>\<^verbatim>\<open>(n / total_frames * 100) if total_frames > 0 else 0\<close>\<close>
  "percent_of n total_frames =
     (if total_frames > 0
      then (case py_truediv (of_int n) (of_int total_frames) of
              Inl e \<Rightarrow> Inl e
            | Inr q \<Rightarrow> Inr (q * 100))
      else Inr 0)"

record report =
  total_time_str :: string
  off_camera_time_str :: string
  off_camera_percent :: rat
  mobile_time_str :: string
  mobile_percent :: rat
  working_time_str :: string
  working_percent :: rat

definition print_final_report :: "stats \<Rightarrow> error + report" where
  \<comment> \<open>The values printed by \<^verbatim>\<open>print_final_report\<close>; the one-decimal rendering of the
      percentages is a float format and is not modelled.\<close>
  "print_final_report st =
     (let fps = current_fps st; total_frames = total_video_frames st
      in case frames_to_time_str total_frames fps of Inl e \<Rightarrow> Inl e | Inr tt \<Rightarrow>
        (case frames_to_time_str (off_camera_frames st) fps of Inl e \<Rightarrow> Inl e | Inr ot \<Rightarrow>
        (case percent_of (off_camera_frames st) total_frames of Inl e \<Rightarrow> Inl e | Inr op \<Rightarrow>
        (case frames_to_time_str (mobile_in_hand_frames st) fps of Inl e \<Rightarrow> Inl e | Inr mt \<Rightarrow>
        (case percent_of (mobile_in_hand_frames st) total_frames of Inl e \<Rightarrow> Inl e | Inr mp \<Rightarrow>
        (case frames_to_time_str (working_frames st) fps of Inl e \<Rightarrow> Inl e | Inr wt \<Rightarrow>
        (case percent_of (working_frames st) total_frames of Inl e \<Rightarrow> Inl e | Inr wp \<Rightarrow>
           Inr \<lparr> total_time_str = tt,
                 off_camera_time_str = ot, off_camera_percent = op,
                 mobile_time_str = mt, mobile_percent = mp,
                 working_time_str = wt, working_percent = wp \<rparr>)))))))"

subsection \<open>Derived notions used in the statements\<close>

text \<open>
  The definitions below are not functions of the source. They name parts of it (the test of
  the innermost \<^verbatim>\<open>if\<close> of the proximity check, the rows passed to \<^verbatim>\<open>log_event\<close>,
  the values a frame assigns to the two start frames) and observations on the analyzer
  state, so that the statements stay short. Each of the first kind is tied to the source
  function it describes by a lemma (\<open>mobile_in_hand_of_iff\<close>, \<open>mobile_duration_result\<close>,
  \<open>activity_inference_result\<close>, \<open>process_frame_result\<close>, \<open>analyze_video_opened\<close>).
\<close>

definition in_hand_pair :: "xyxy \<Rightarrow> box \<Rightarrow> bool" where
  \<comment> \<open>the box is a mobile and passes the three tests against the person box\<close>
  "in_hand_pair p b = (cls b = MOBILE_CLASS_ID
         \<and> horizontal_prox p (xyxy b) \<and> vertical_prox p (xyxy b) \<and> touches p (xyxy b))"

definition mobile_start_event :: "int \<Rightarrow> event" where
  "mobile_start_event fr = \<lparr>ev_frame = fr, ev_label = ''mobile_in_hand_start'', duration_seconds = 0\<rparr>"

definition mobile_end_event :: "int \<Rightarrow> rat \<Rightarrow> event" where
  "mobile_end_event fr d = \<lparr>ev_frame = fr, ev_label = ''mobile_in_hand_end'', duration_seconds = d\<rparr>"

definition missing_alert_event :: "int \<Rightarrow> rat \<Rightarrow> event" where
  "missing_alert_event fr d = \<lparr>ev_frame = fr, ev_label = ''person_missing_alert'', duration_seconds = d\<rparr>"

definition activity_label :: "bool \<Rightarrow> bool \<Rightarrow> bool \<Rightarrow> string" where
  \<comment> \<open>the label \<open>activity_inference\<close> returns, as a function of the three cached flags\<close>
  "activity_label person mobile laptop =
     (if \<not> person then ''Off-Camera/Missing''
      else if mobile then ''Using Mobile Phone''
      else if laptop then ''Working on Laptop''
      else ''Present (Idle/Other)'')"

definition off_start :: "analyzer \<Rightarrow> int" where
  \<comment> \<open>\<open>off_camera_start_frame\<close> after the first \<^verbatim>\<open>if\<close> of the missing-alert logic\<close>
  "off_start s = (if off_camera_start_frame s = - 1 then frame_count s
                  else off_camera_start_frame s)"

definition alert_due :: "analyzer \<Rightarrow> bool" where
  \<comment> \<open>\<^verbatim>\<open>duration_frames >= self.alert_duration_frames\<close>\<close>
  "alert_due s = (frame_count s - off_start s \<ge> alert_duration_frames s)"

definition mobile_events_of :: "rat \<Rightarrow> analyzer \<Rightarrow> event list" where
  \<comment> \<open>the rows \<open>mobile_duration\<close> logs on a frame\<close>
  "mobile_events_of fps s =
     (if last_mobile_in_hand s \<and> mobile_in_hand_start_frame s = - 1
      then [mobile_start_event (frame_count s)]
      else if \<not> last_mobile_in_hand s \<and> mobile_in_hand_start_frame s \<noteq> - 1
      then [mobile_end_event (frame_count s)
              (of_int (frame_count s - mobile_in_hand_start_frame s) / fps)]
      else [])"

definition mobile_start_next :: "analyzer \<Rightarrow> int" where
  \<comment> \<open>\<open>mobile_in_hand_start_frame\<close> after \<open>mobile_duration\<close>\<close>
  "mobile_start_next s =
     (if last_mobile_in_hand s \<and> mobile_in_hand_start_frame s = - 1 then frame_count s
      else if \<not> last_mobile_in_hand s \<and> mobile_in_hand_start_frame s \<noteq> - 1 then - 1
      else mobile_in_hand_start_frame s)"

definition alert_events_of :: "rat \<Rightarrow> analyzer \<Rightarrow> event list" where
  \<comment> \<open>the rows \<open>activity_inference\<close> logs on a frame\<close>
  "alert_events_of fps s =
     (if \<not> last_person_present s \<and> alert_due s
      then [missing_alert_event (frame_count s) (of_int (frame_count s - off_start s) / fps)]
      else [])"

definition off_start_next :: "analyzer \<Rightarrow> int" where
  \<comment> \<open>\<open>off_camera_start_frame\<close> after \<open>activity_inference\<close>\<close>
  "off_start_next s = (if last_person_present s \<or> alert_due s then - 1 else off_start s)"

definition cached :: "analyzer \<Rightarrow> bool \<times> bool \<times> bool" where
  \<comment> \<open>the three cached flags that sections C and D read\<close>
  "cached s = (last_person_present s, last_mobile_in_hand s, last_laptop_detected s)"

definition snapshot_of :: "box list list \<Rightarrow> bool \<times> bool \<times> bool" where
  \<comment> \<open>the three flags section A computes from the detector's results\<close>
  "snapshot_of rs = (person_boxes_of rs \<noteq> [], mobile_in_hand_of rs, laptop_keyboard_of rs)"

definition labels :: "analyzer \<Rightarrow> string list" where
  \<comment> \<open>the activity labels drawn so far, one per processed frame\<close>
  "labels s = map fst (shown s)"

definition counters_inv :: "analyzer \<Rightarrow> bool" where
  \<comment> \<open>the loop invariant that relates the counters to the labels drawn\<close>
  "counters_inv s \<longleftrightarrow>
     total_video_frames (stats s) = frame_count s
     \<and> total_video_frames (stats s) = int (length (labels s))
     \<and> set (labels s) \<subseteq> {''Off-Camera/Missing'', ''Using Mobile Phone'',
                            ''Working on Laptop'', ''Present (Idle/Other)''}
     \<and> off_camera_frames (stats s) = int (count_list (labels s) ''Off-Camera/Missing'')
     \<and> mobile_in_hand_frames (stats s) = int (count_list (labels s) ''Using Mobile Phone'')
     \<and> working_frames (stats s) = int (count_list (labels s) ''Working on Laptop'')"

definition start_state :: "analyzer \<Rightarrow> video \<Rightarrow> analyzer" where
  \<comment> \<open>the analyzer when \<open>analyze_video\<close> enters the loop\<close>
  "start_state s v =
     s\<lparr> stats := (stats s)\<lparr>current_fps := working_fps s v\<rparr>,
        alert_duration_frames := py_int (working_fps s v * ALERT_DURATION_SECONDS s) \<rparr>"

definition alerts :: "analyzer \<Rightarrow> event list" where
  \<comment> \<open>the logged rows of the off-camera tracker\<close>
  "alerts s = filter (\<lambda>e. ev_label e = ''person_missing_alert'') (log s)"

definition mobile_events :: "analyzer \<Rightarrow> event list" where
  \<comment> \<open>the logged rows of the mobile-in-hand tracker\<close>
  "mobile_events s =
     filter (\<lambda>e. ev_label e = ''mobile_in_hand_start'' \<or> ev_label e = ''mobile_in_hand_end'') (log s)"

definition elapsed :: "analyzer \<Rightarrow> int" where
  \<comment> \<open>the \<^verbatim>\<open>duration_frames\<close> the next off-camera frame will compute\<close>
  "elapsed s = (if off_camera_start_frame s = - 1 then 0
                else frame_count s - off_camera_start_frame s)"

definition sampled :: "int \<Rightarrow> bool" where
  \<comment> \<open>the detector runs on the frame with this index\<close>
  "sampled i \<longleftrightarrow> i mod FRAME_SKIP = 0"

definition run_alert_frames :: "analyzer \<Rightarrow> video \<Rightarrow> int list" where
  \<comment> \<open>the frame indices of the alerts logged by a run\<close>
  "run_alert_frames a v =
     (case analyze_video a v of Inl e \<Rightarrow> [] | Inr (s, r) \<Rightarrow> map ev_frame (alerts s))"

section \<open>Properties\<close>

lemma scan_boxes_iff:
  "scan_boxes p bs st = (if \<exists>b\<in>set bs. in_hand_pair p b then (True, True) else st)"
  by (induction bs) (auto simp: in_hand_pair_def)

lemma scan_results_False:
  "scan_results p rs (False, False) =
     (if \<exists>b\<in>set (concat rs). in_hand_pair p b then (True, True) else (False, False))"
  by (induction rs) (auto simp: scan_boxes_iff Let_def)

lemma scan_persons_False:
  "scan_persons ps rs (False, False) =
     (if \<exists>p\<in>set ps. \<exists>b\<in>set (concat rs). in_hand_pair p b then (True, True) else (False, False))"
  by (induction ps) (auto simp: scan_results_False Let_def)

lemma mobile_in_hand_of_iff:
  "mobile_in_hand_of rs \<longleftrightarrow>
     (\<exists>p\<in>set (person_boxes_of rs). \<exists>b\<in>set (concat rs). in_hand_pair p b)"
  by (simp add: mobile_in_hand_of_def scan_persons_False)

lemma intersection_area_nonneg: "0 \<le> intersection_area p m"
  by (cases p; cases m) (simp add: intersection_area_def)

lemma py_truediv_Inr: "b \<noteq> 0 \<Longrightarrow> py_truediv a b = Inr (a / b)"
  by (simp add: py_truediv_def)

lemma mobile_duration_total:
  "fps \<noteq> 0 \<Longrightarrow> \<exists>s'. mobile_duration fps s = Inr s'"
  by (simp add: mobile_duration_def py_truediv_Inr Let_def)

lemma missing_alert_total:
  "fps \<noteq> 0 \<Longrightarrow> \<exists>s'. missing_alert fps s = Inr s'"
  by (simp add: missing_alert_def py_truediv_Inr Let_def)

lemma activity_inference_total:
  "fps \<noteq> 0 \<Longrightarrow> \<exists>s' l. activity_inference fps s = Inr (s', l)"
proof (cases "last_person_present s")
  case True
  then show ?thesis by (simp add: activity_inference_def Let_def)
next
  case False
  assume "fps \<noteq> 0"
  then obtain s2 where "missing_alert fps
      (s\<lparr>stats := (stats s)\<lparr>off_camera_frames := off_camera_frames (stats s) + 1\<rparr>\<rparr>) = Inr s2"
    using missing_alert_total by blast
  with False show ?thesis by (simp add: activity_inference_def Let_def)
qed

lemma alert_time_str_total:
  "fps \<noteq> 0 \<Longrightarrow> \<exists>t. alert_time_str fps s = Inr t"
  by (simp add: alert_time_str_def py_truediv_Inr Let_def)

lemma process_frame_total:
  assumes "fps \<noteq> 0"
  shows "\<exists>s'. process_frame fps s f = Inr s'"
proof -
  let ?s1 = "detect (s\<lparr>stats := (stats s)\<lparr>total_video_frames := frame_count s + 1\<rparr>\<rparr>) f"
  obtain s2 where s2: "mobile_duration fps ?s1 = Inr s2"
    using mobile_duration_total[OF assms] by blast
  obtain s3 l where s3: "activity_inference fps s2 = Inr (s3, l)"
    using activity_inference_total[OF assms] by blast
  obtain t where t: "alert_time_str fps s3 = Inr t"
    using alert_time_str_total[OF assms] by blast
  show ?thesis
    by (simp add: process_frame_def Let_def s2 s3 t)
qed

lemma frame_loop_total:
  "fps \<noteq> 0 \<Longrightarrow> \<exists>s'. frame_loop fps s fs = Inr s'"
proof (induction fs arbitrary: s)
  case Nil
  then show ?case by simp
next
  case (Cons f fs)
  obtain s1 where "process_frame fps s f = Inr s1"
    using process_frame_total[OF Cons.prems] by blast
  then show ?case using Cons.IH[OF Cons.prems, of s1] by simp
qed

lemma working_fps_nonzero: "TARGET_FPS s \<noteq> 0 \<Longrightarrow> working_fps s v \<noteq> 0"
  by (simp add: working_fps_def)

lemma frames_to_time_str_total: "\<exists>t. frames_to_time_str n fps = Inr t"
  by (simp add: frames_to_time_str_def py_truediv_def Let_def)

lemma frames_to_time_str_zero_fps: "frames_to_time_str n 0 = Inr ''00:00:00''"
  by (simp add: frames_to_time_str_def)

lemma percent_of_total: "\<exists>q. percent_of n t = Inr q"
  by (simp add: percent_of_def py_truediv_def)

lemma percent_of_zero: "t \<le> 0 \<Longrightarrow> percent_of n t = Inr 0"
  by (simp add: percent_of_def)


text \<open>
  Claim C8 (amended). Every percentage and duration computation of the final report guards
  its divisor, so the report never raises: every percentage is guarded by
  \<open>total_frames > 0\<close> and is 0 when \<open>total_frames = 0\<close>; the duration formatting is
  guarded by \<open>fps = 0\<close> and then yields \<open>00:00:00\<close>. A run over a video without frames
  ends with \<open>total_frames = 0\<close> and a report of 0 percent for the three categories.
\<close>

theorem report_guards_divisors:
  "(\<exists>r. print_final_report st = Inr r
       \<and> (total_video_frames st = 0 \<longrightarrow>
            off_camera_percent r = 0 \<and> mobile_percent r = 0 \<and> working_percent r = 0)
       \<and> (current_fps st = 0 \<longrightarrow>
            total_time_str r = ''00:00:00'' \<and> off_camera_time_str r = ''00:00:00''
            \<and> mobile_time_str r = ''00:00:00'' \<and> working_time_str r = ''00:00:00''))
   \<and> (isOpened v \<and> frames v = [] \<longrightarrow>
        (\<exists>s st0 r. analyze_video (new_analyzer a t) v = Inr (s, Some st0)
           \<and> total_video_frames st0 = 0 \<and> print_final_report st0 = Inr r
           \<and> off_camera_percent r = 0 \<and> mobile_percent r = 0 \<and> working_percent r = 0))"
proof -
  have rep: "\<exists>r. print_final_report st = Inr r
       \<and> (total_video_frames st = 0 \<longrightarrow>
            off_camera_percent r = 0 \<and> mobile_percent r = 0 \<and> working_percent r = 0)
       \<and> (current_fps st = 0 \<longrightarrow>
            total_time_str r = ''00:00:00'' \<and> off_camera_time_str r = ''00:00:00''
            \<and> mobile_time_str r = ''00:00:00'' \<and> working_time_str r = ''00:00:00'')" for st
  proof -
    let ?fps = "current_fps st" and ?n = "total_video_frames st"
    obtain tt where tt: "frames_to_time_str ?n ?fps = Inr tt"
      using frames_to_time_str_total by blast
    obtain ot where ot: "frames_to_time_str (off_camera_frames st) ?fps = Inr ot"
      using frames_to_time_str_total by blast
    obtain mt where mt: "frames_to_time_str (mobile_in_hand_frames st) ?fps = Inr mt"
      using frames_to_time_str_total by blast
    obtain wt where wt: "frames_to_time_str (working_frames st) ?fps = Inr wt"
      using frames_to_time_str_total by blast
    obtain op where op: "percent_of (off_camera_frames st) ?n = Inr op"
      using percent_of_total by blast
    obtain mp where mp: "percent_of (mobile_in_hand_frames st) ?n = Inr mp"
      using percent_of_total by blast
    obtain wp where wp: "percent_of (working_frames st) ?n = Inr wp"
      using percent_of_total by blast
    have zero_pct: "?n = 0 \<longrightarrow> op = 0 \<and> mp = 0 \<and> wp = 0"
      using op mp wp by (auto simp: percent_of_zero)
    have zero_fps: "?fps = 0 \<longrightarrow> tt = ''00:00:00'' \<and> ot = ''00:00:00''
        \<and> mt = ''00:00:00'' \<and> wt = ''00:00:00''"
      using tt ot mt wt by (auto simp: frames_to_time_str_zero_fps)
    have "print_final_report st = Inr \<lparr> total_time_str = tt,
                 off_camera_time_str = ot, off_camera_percent = op,
                 mobile_time_str = mt, mobile_percent = mp,
                 working_time_str = wt, working_percent = wp \<rparr>"
      by (simp add: print_final_report_def Let_def tt ot mt wt op mp wp)
    with zero_pct zero_fps show ?thesis by simp
  qed
  have run: "\<exists>s st0 r. analyze_video (new_analyzer a t) v = Inr (s, Some st0)
           \<and> total_video_frames st0 = 0 \<and> print_final_report st0 = Inr r
           \<and> off_camera_percent r = 0 \<and> mobile_percent r = 0 \<and> working_percent r = 0"
    if "isOpened v" "frames v = []"
  proof -
    let ?s = "(new_analyzer a t)\<lparr> stats := (stats (new_analyzer a t))
                   \<lparr>current_fps := working_fps (new_analyzer a t) v\<rparr>,
                 alert_duration_frames :=
                   py_int (working_fps (new_analyzer a t) v * ALERT_DURATION_SECONDS (new_analyzer a t)) \<rparr>"
    have av: "analyze_video (new_analyzer a t) v = Inr (?s, Some (stats ?s))"
      using that by (simp add: analyze_video_def Let_def)
    have z: "total_video_frames (stats ?s) = 0"
      by (simp add: new_analyzer_def)
    from rep[of "stats ?s"] z av show ?thesis by blast
  qed
  from rep[of st] run show ?thesis by blast
qed

theorem report_guards_divisors_witness:
  "(\<exists>r. print_final_report \<lparr>total_video_frames = 0, off_camera_frames = 0,
            mobile_in_hand_frames = 0, working_frames = 0, current_fps = 0\<rparr> = Inr r
       \<and> off_camera_percent r = 0 \<and> mobile_percent r = 0 \<and> working_percent r = 0
       \<and> total_time_str r = ''00:00:00'' \<and> off_camera_time_str r = ''00:00:00''
       \<and> mobile_time_str r = ''00:00:00'' \<and> working_time_str r = ''00:00:00'')
   \<and> (\<exists>s st0 r. analyze_video (new_analyzer 30 60)
            \<lparr>isOpened = True, CAP_PROP_FPS = 30, frames = []\<rparr> = Inr (s, Some st0)
         \<and> total_video_frames st0 = 0 \<and> print_final_report st0 = Inr r
         \<and> off_camera_percent r = 0 \<and> mobile_percent r = 0 \<and> working_percent r = 0)"
  using report_guards_divisors [of "\<lparr>total_video_frames = 0, off_camera_frames = 0,
            mobile_in_hand_frames = 0, working_frames = 0, current_fps = 0\<rparr>"
          "\<lparr>isOpened = True, CAP_PROP_FPS = 30, frames = []\<rparr>" 30 60]
  by simp

text \<open>
  Claim C6. The proximity check reports a mobile in hand exactly when some (person, mobile)
  pair meets the horizontal and the vertical condition and has a strictly positive
  intersection area; if every mobile box has an intersection area of zero (or less) with
  every person box, the check reports false, wherever the centres are.
\<close>

theorem overlap_required:
  "(mobile_in_hand_of rs \<longleftrightarrow>
      (\<exists>p\<in>set (person_boxes_of rs). \<exists>b\<in>set (concat rs).
         cls b = MOBILE_CLASS_ID \<and> horizontal_prox p (xyxy b) \<and> vertical_prox p (xyxy b)
         \<and> 0 < intersection_area p (xyxy b)))
   \<and> ((\<forall>p\<in>set (person_boxes_of rs). \<forall>b\<in>set (concat rs).
         cls b = MOBILE_CLASS_ID \<longrightarrow> intersection_area p (xyxy b) \<le> 0)
       \<longrightarrow> \<not> mobile_in_hand_of rs)"
proof -
  have iff: "mobile_in_hand_of rs \<longleftrightarrow>
      (\<exists>p\<in>set (person_boxes_of rs). \<exists>b\<in>set (concat rs).
         cls b = MOBILE_CLASS_ID \<and> horizontal_prox p (xyxy b) \<and> vertical_prox p (xyxy b)
         \<and> 0 < intersection_area p (xyxy b))"
    unfolding mobile_in_hand_of_iff in_hand_pair_def touches_def by blast
  have "\<not> mobile_in_hand_of rs"
    if none: "\<forall>p\<in>set (person_boxes_of rs). \<forall>b\<in>set (concat rs).
         cls b = MOBILE_CLASS_ID \<longrightarrow> intersection_area p (xyxy b) \<le> 0"
  proof
    assume "mobile_in_hand_of rs"
    then obtain p b where "p \<in> set (person_boxes_of rs)" "b \<in> set (concat rs)"
        "cls b = MOBILE_CLASS_ID" "0 < intersection_area p (xyxy b)"
      using iff by blast
    with none show False by fastforce
  qed
  with iff show ?thesis by blast
qed

lemma eval_defs:
  "PERSON_CLASS_ID = 0" "MOBILE_CLASS_ID = 67" "LAPTOP_CLASS_ID = 63" "KEYBOARD_CLASS_ID = 66"
  by (simp_all add: PERSON_CLASS_ID_def MOBILE_CLASS_ID_def LAPTOP_CLASS_ID_def KEYBOARD_CLASS_ID_def)

theorem overlap_required_witness:
  "horizontal_prox (0, 0, 100, 100) (100, 40, 110, 60)
   \<and> vertical_prox (0, 0, 100, 100) (100, 40, 110, 60)
   \<and> intersection_area (0, 0, 100, 100) (100, 40, 110, 60) = 0
   \<and> \<not> mobile_in_hand_of [[\<lparr>cls = 0, xyxy = (0, 0, 100, 100)\<rparr>,
                            \<lparr>cls = 67, xyxy = (100, 40, 110, 60)\<rparr>]]"
  using overlap_required [of "[[\<lparr>cls = 0, xyxy = (0, 0, 100, 100)\<rparr>,
                            \<lparr>cls = 67, xyxy = (100, 40, 110, 60)\<rparr>]]"]
  by (simp add: person_boxes_of_def eval_defs intersection_area_def horizontal_prox_def
        vertical_prox_def py_mobile_zone_def py_int_def)

text \<open>
  The claim C5 as stated fails: the pair below meets the horizontal and the overlap
  condition, the mobile's vertical centre (20) is exactly on the line, and the check
  reports false.
\<close>

theorem boundary_centre_counterexample:
  "horizontal_prox (0, 0, 100, 100) (40, 10, 60, 30)
   \<and> touches (0, 0, 100, 100) (40, 10, 60, 30)
   \<and> (of_int (10 + 30) / 2 :: rat) = of_int (py_mobile_zone (0, 0, 100, 100))
   \<and> \<not> mobile_in_hand_of [[\<lparr>cls = 0, xyxy = (0, 0, 100, 100)\<rparr>,
                            \<lparr>cls = 67, xyxy = (40, 10, 60, 30)\<rparr>]]"
  by (simp add: mobile_in_hand_of_def person_boxes_of_def eval_defs intersection_area_def
        touches_def horizontal_prox_def vertical_prox_def py_mobile_zone_def py_int_def)

text \<open>
  Claim C5 (amended). The vertical test is strict: a mobile box whose vertical centre lies
  exactly on the line 20 percent down from the top of the person box does not satisfy the
  vertical-zone condition, and a frame with that person and that mobile alone yields
  \<open>mobile_in_hand = false\<close>, whatever the horizontal position and the overlap.
\<close>

theorem boundary_centre_excluded:
  assumes "(of_int (my1 + my2) / 2 :: rat) = of_int (py_mobile_zone p)"
  shows "\<not> vertical_prox p (mx1, my1, mx2, my2)
       \<and> \<not> mobile_in_hand_of [[\<lparr>cls = PERSON_CLASS_ID, xyxy = p\<rparr>,
                                \<lparr>cls = MOBILE_CLASS_ID, xyxy = (mx1, my1, mx2, my2)\<rparr>]]"
  using assms
  by (simp add: mobile_in_hand_of_iff in_hand_pair_def person_boxes_of_def vertical_prox_def eval_defs)

theorem boundary_centre_excluded_witness:
  "(of_int (10 + 30) / 2 :: rat) = of_int (py_mobile_zone (0, 0, 100, 100))
   \<and> \<not> vertical_prox (0, 0, 100, 100) (40, 10, 60, 30)
   \<and> \<not> mobile_in_hand_of [[\<lparr>cls = PERSON_CLASS_ID, xyxy = (0, 0, 100, 100)\<rparr>,
                            \<lparr>cls = MOBILE_CLASS_ID, xyxy = (40, 10, 60, 30)\<rparr>]]"
proof -
  have h: "(of_int (10 + 30) / 2 :: rat) = of_int (py_mobile_zone (0, 0, 100, 100))"
    by (simp add: py_mobile_zone_def py_int_def)
  show ?thesis using h boundary_centre_excluded [OF h, of 40 60] by simp
qed

subsection \<open>One frame of the loop, stage by stage\<close>

lemma mobile_duration_result:
  assumes "mobile_duration fps s = Inr s2"
  shows "s2 = s\<lparr> mobile_in_hand_start_frame :=
                   (if last_mobile_in_hand s \<and> mobile_in_hand_start_frame s = - 1 then frame_count s
                    else if \<not> last_mobile_in_hand s \<and> mobile_in_hand_start_frame s \<noteq> - 1 then - 1
                    else mobile_in_hand_start_frame s),
                 log := log s @
                   (if last_mobile_in_hand s \<and> mobile_in_hand_start_frame s = - 1
                    then [mobile_start_event (frame_count s)]
                    else if \<not> last_mobile_in_hand s \<and> mobile_in_hand_start_frame s \<noteq> - 1
                    then [mobile_end_event (frame_count s)
                            (of_int (frame_count s - mobile_in_hand_start_frame s) / fps)]
                    else []) \<rparr>"
  using assms
  by (auto simp: mobile_duration_def log_event_def py_truediv_def Let_def
        mobile_start_event_def mobile_end_event_def split: if_splits)

lemma missing_alert_result:
  assumes "missing_alert fps s = Inr s2"
  shows "s2 = s\<lparr> off_camera_start_frame :=
                   (let start = (if off_camera_start_frame s = - 1 then frame_count s
                                 else off_camera_start_frame s)
                    in if frame_count s - start \<ge> alert_duration_frames s then - 1 else start),
                 log := log s @
                   (let start = (if off_camera_start_frame s = - 1 then frame_count s
                                 else off_camera_start_frame s)
                    in if frame_count s - start \<ge> alert_duration_frames s
                       then [missing_alert_event (frame_count s) (of_int (frame_count s - start) / fps)]
                       else []) \<rparr>"
  using assms
  by (auto simp: missing_alert_def log_event_def py_truediv_def Let_def
        missing_alert_event_def split: if_splits)


lemma mobile_duration_result':
  "mobile_duration fps s = Inr s2 \<Longrightarrow>
     s2 = s\<lparr>mobile_in_hand_start_frame := mobile_start_next s,
            log := log s @ mobile_events_of fps s\<rparr>"
  by (drule mobile_duration_result) (simp add: mobile_start_next_def mobile_events_of_def)

lemma activity_inference_result:
  assumes "activity_inference fps s = Inr (s3, l)"
  shows "l = activity_label (last_person_present s) (last_mobile_in_hand s) (last_laptop_detected s)
       \<and> s3 = s\<lparr> off_camera_start_frame := off_start_next s,
                  stats := (stats s)
                    \<lparr> off_camera_frames := off_camera_frames (stats s)
                         + (if last_person_present s then 0 else 1),
                      mobile_in_hand_frames := mobile_in_hand_frames (stats s)
                         + (if last_person_present s \<and> last_mobile_in_hand s then 1 else 0),
                      working_frames := working_frames (stats s)
                         + (if last_person_present s \<and> \<not> last_mobile_in_hand s
                               \<and> last_laptop_detected s then 1 else 0) \<rparr>,
                  log := log s @ alert_events_of fps s \<rparr>"
proof (cases "last_person_present s")
  case True
  with assms show ?thesis
    by (auto simp: activity_inference_def activity_label_def off_start_next_def
          alert_events_of_def Let_def split: if_splits)
next
  case False
  let ?s1 = "s\<lparr>stats := (stats s)\<lparr>off_camera_frames := off_camera_frames (stats s) + 1\<rparr>\<rparr>"
  from assms False have m: "missing_alert fps ?s1 = Inr s3" and l: "l = ''Off-Camera/Missing''"
    by (auto simp: activity_inference_def Let_def split: sum.splits)
  from missing_alert_result[OF m] False l show ?thesis
    by (simp add: activity_label_def off_start_next_def alert_events_of_def alert_due_def
          off_start_def Let_def)
qed

lemma process_frame_result:
  assumes "process_frame fps s f = Inr s'"
  shows "\<exists>t. s' = (detect s f)
            \<lparr> mobile_in_hand_start_frame := mobile_start_next (detect s f),
              off_camera_start_frame := off_start_next (detect s f),
              stats := (stats s)
                \<lparr> total_video_frames := frame_count s + 1,
                  off_camera_frames := off_camera_frames (stats s)
                     + (if last_person_present (detect s f) then 0 else 1),
                  mobile_in_hand_frames := mobile_in_hand_frames (stats s)
                     + (if last_person_present (detect s f) \<and> last_mobile_in_hand (detect s f)
                        then 1 else 0),
                  working_frames := working_frames (stats s)
                     + (if last_person_present (detect s f) \<and> \<not> last_mobile_in_hand (detect s f)
                           \<and> last_laptop_detected (detect s f) then 1 else 0) \<rparr>,
              log := log s @ mobile_events_of fps (detect s f) @ alert_events_of fps (detect s f),
              shown := shown s @ [(activity_label (last_person_present (detect s f))
                                     (last_mobile_in_hand (detect s f))
                                     (last_laptop_detected (detect s f)), t)],
              frame_count := frame_count s + 1 \<rparr>"
proof -
  let ?s0 = "s\<lparr>stats := (stats s)\<lparr>total_video_frames := frame_count s + 1\<rparr>\<rparr>"
  let ?c = "detect s f"
  have c0: "detect ?s0 f = ?c\<lparr>stats := (stats s)\<lparr>total_video_frames := frame_count s + 1\<rparr>\<rparr>"
    by (simp add: detect_def)
  from assms obtain s2 s3 l t where
      s2: "mobile_duration fps (detect ?s0 f) = Inr s2"
    and s3: "activity_inference fps s2 = Inr (s3, l)"
    and t: "alert_time_str fps s3 = Inr t"
    and s': "s' = s3\<lparr>shown := shown s3 @ [(l, t)], frame_count := frame_count s3 + 1\<rparr>"
    by (auto simp: process_frame_def Let_def split: sum.splits prod.splits)
  have dfields: "frame_count ?c = frame_count s" "stats ?c = stats s" "log ?c = log s"
      "shown ?c = shown s"
    by (simp_all add: detect_def)
  note r2 = mobile_duration_result'[OF s2]
  note r3 = activity_inference_result[OF s3]
  have "s' = ?c
            \<lparr> mobile_in_hand_start_frame := mobile_start_next ?c,
              off_camera_start_frame := off_start_next ?c,
              stats := (stats s)
                \<lparr> total_video_frames := frame_count s + 1,
                  off_camera_frames := off_camera_frames (stats s)
                     + (if last_person_present ?c then 0 else 1),
                  mobile_in_hand_frames := mobile_in_hand_frames (stats s)
                     + (if last_person_present ?c \<and> last_mobile_in_hand ?c
                        then 1 else 0),
                  working_frames := working_frames (stats s)
                     + (if last_person_present ?c \<and> \<not> last_mobile_in_hand ?c
                           \<and> last_laptop_detected ?c then 1 else 0) \<rparr>,
              log := log s @ mobile_events_of fps ?c @ alert_events_of fps ?c,
              shown := shown s @ [(activity_label (last_person_present ?c)
                                     (last_mobile_in_hand ?c)
                                     (last_laptop_detected ?c), t)],
              frame_count := frame_count s + 1 \<rparr>"
    unfolding s' using r3 unfolding r2 c0
    by (simp add: dfields mobile_start_next_def mobile_events_of_def alert_events_of_def
          off_start_next_def alert_due_def off_start_def)
  then show ?thesis by blast
qed

subsection \<open>Sampling, the activity hierarchy and the loop\<close>

lemma detect_fields:
  "frame_count (detect s f) = frame_count s"
  "stats (detect s f) = stats s"
  "log (detect s f) = log s"
  "shown (detect s f) = shown s"
  "alert_duration_frames (detect s f) = alert_duration_frames s"
  "off_camera_start_frame (detect s f) = off_camera_start_frame s"
  "mobile_in_hand_start_frame (detect s f) = mobile_in_hand_start_frame s"
  "ALERT_DURATION_SECONDS (detect s f) = ALERT_DURATION_SECONDS s"
  "TARGET_FPS (detect s f) = TARGET_FPS s"
  by (simp_all add: detect_def)

lemma detect_skip: "frame_count s mod FRAME_SKIP \<noteq> 0 \<Longrightarrow> detect s f = s"
  by (simp add: detect_def)

lemma detect_sample:
  assumes "frame_count s mod FRAME_SKIP = 0"
  shows "last_person_present (detect s f) = (person_boxes_of (results f) \<noteq> [])"
    and "last_mobile_in_hand (detect s f) = mobile_in_hand_of (results f)"
    and "last_laptop_detected (detect s f) = laptop_keyboard_of (results f)"
  using assms by (simp_all add: detect_def)

lemma process_frame_fields:
  assumes "process_frame fps s f = Inr s'"
  shows "frame_count s' = frame_count s + 1"
    and "alert_duration_frames s' = alert_duration_frames s"
    and "last_person_present s' = last_person_present (detect s f)"
    and "last_mobile_in_hand s' = last_mobile_in_hand (detect s f)"
    and "last_laptop_detected s' = last_laptop_detected (detect s f)"
    and "mobile_in_hand_start_frame s' = mobile_start_next (detect s f)"
    and "off_camera_start_frame s' = off_start_next (detect s f)"
    and "log s' = log s @ mobile_events_of fps (detect s f) @ alert_events_of fps (detect s f)"
    and "map fst (shown s') = map fst (shown s) @
           [activity_label (last_person_present (detect s f)) (last_mobile_in_hand (detect s f))
              (last_laptop_detected (detect s f))]"
    and "total_video_frames (stats s') = frame_count s + 1"
    and "off_camera_frames (stats s') = off_camera_frames (stats s)
           + (if last_person_present (detect s f) then 0 else 1)"
    and "mobile_in_hand_frames (stats s') = mobile_in_hand_frames (stats s)
           + (if last_person_present (detect s f) \<and> last_mobile_in_hand (detect s f) then 1 else 0)"
    and "working_frames (stats s') = working_frames (stats s)
           + (if last_person_present (detect s f) \<and> \<not> last_mobile_in_hand (detect s f)
                 \<and> last_laptop_detected (detect s f) then 1 else 0)"
    and "current_fps (stats s') = current_fps (stats s)"
  using process_frame_result[OF assms] by (auto simp: detect_fields)

lemma process_frame_skip:
  "frame_count s mod FRAME_SKIP \<noteq> 0 \<Longrightarrow> process_frame fps s f = process_frame fps s g"
  by (simp add: process_frame_def detect_skip)

lemma frame_loop_single: "frame_loop fps s [f] = process_frame fps s f"
  by (simp split: sum.splits)

lemma frame_loop_append:
  "\<forall>x\<in>set fs. \<not> key_q x \<Longrightarrow>
     frame_loop fps s (fs @ gs) =
       (case frame_loop fps s fs of Inl e \<Rightarrow> Inl e | Inr s1 \<Rightarrow> frame_loop fps s1 gs)"
  by (induction fs arbitrary: s) (auto split: sum.splits)

lemma frame_loop_snoc:
  "\<forall>x\<in>set fs. \<not> key_q x \<Longrightarrow>
     frame_loop fps s (fs @ [f]) =
       (case frame_loop fps s fs of Inl e \<Rightarrow> Inl e | Inr s1 \<Rightarrow> process_frame fps s1 f)"
  by (simp add: frame_loop_append split: sum.splits)

lemma frame_loop_snoc_Inr:
  assumes "\<forall>x\<in>set fs. \<not> key_q x" and "frame_loop fps s (fs @ [f]) = Inr s'"
  obtains s1 where "frame_loop fps s fs = Inr s1" and "process_frame fps s1 f = Inr s'"
  using assms(2) unfolding frame_loop_snoc[OF assms(1)]
  by (auto split: sum.splits)

lemma frame_loop_frame_count:
  "\<forall>x\<in>set fs. \<not> key_q x \<Longrightarrow> frame_loop fps s fs = Inr s' \<Longrightarrow>
     frame_count s' = frame_count s + int (length fs)"
proof (induction fs arbitrary: s)
  case Nil
  then show ?case by simp
next
  case (Cons f fs)
  from Cons.prems obtain s1 where s1: "process_frame fps s f = Inr s1"
    and rest: "frame_loop fps s1 fs = Inr s'"
    by (auto split: sum.splits)
  from Cons.IH[OF _ rest] Cons.prems(1) process_frame_fields(1)[OF s1]
  show ?case by simp
qed

text \<open>
  Claim C3. On every frame that the loop completes, the hierarchy is evaluated top-down on
  the cached flags (those of \<open>detect s f\<close>, which are the flags of the state after the
  frame) and the first match wins: no person gives the label \<open>Off-Camera/Missing\<close> and
  one more off-camera frame; otherwise a mobile in hand gives \<open>Using Mobile Phone\<close> and
  one more mobile frame; otherwise a laptop or keyboard gives \<open>Working on Laptop\<close> and
  one more working frame; otherwise the label is \<open>Present (Idle/Other)\<close> and no
  category counter changes. The total is set to \<open>frame_count + 1\<close>, which is one more
  than before in every state the loop reaches (there the total equals \<open>frame_count\<close>).
\<close>

theorem activity_hierarchy:
  assumes "process_frame fps s f = Inr s'"
    and "total_video_frames (stats s) = frame_count s"
  shows "total_video_frames (stats s') = total_video_frames (stats s) + 1
     \<and> total_video_frames (stats s') = frame_count s'
     \<and> length (shown s') = length (shown s) + 1
     \<and> last_person_present s' = last_person_present (detect s f)
     \<and> last_mobile_in_hand s' = last_mobile_in_hand (detect s f)
     \<and> last_laptop_detected s' = last_laptop_detected (detect s f)
     \<and> (\<not> last_person_present s' \<longrightarrow>
           fst (last (shown s')) = ''Off-Camera/Missing''
           \<and> off_camera_frames (stats s') = off_camera_frames (stats s) + 1
           \<and> mobile_in_hand_frames (stats s') = mobile_in_hand_frames (stats s)
           \<and> working_frames (stats s') = working_frames (stats s))
     \<and> (last_person_present s' \<and> last_mobile_in_hand s' \<longrightarrow>
           fst (last (shown s')) = ''Using Mobile Phone''
           \<and> off_camera_frames (stats s') = off_camera_frames (stats s)
           \<and> mobile_in_hand_frames (stats s') = mobile_in_hand_frames (stats s) + 1
           \<and> working_frames (stats s') = working_frames (stats s))
     \<and> (last_person_present s' \<and> \<not> last_mobile_in_hand s' \<and> last_laptop_detected s' \<longrightarrow>
           fst (last (shown s')) = ''Working on Laptop''
           \<and> off_camera_frames (stats s') = off_camera_frames (stats s)
           \<and> mobile_in_hand_frames (stats s') = mobile_in_hand_frames (stats s)
           \<and> working_frames (stats s') = working_frames (stats s) + 1)
     \<and> (last_person_present s' \<and> \<not> last_mobile_in_hand s' \<and> \<not> last_laptop_detected s' \<longrightarrow>
           fst (last (shown s')) = ''Present (Idle/Other)''
           \<and> off_camera_frames (stats s') = off_camera_frames (stats s)
           \<and> mobile_in_hand_frames (stats s') = mobile_in_hand_frames (stats s)
           \<and> working_frames (stats s') = working_frames (stats s))"
proof -
  note fl = process_frame_fields[OF assms(1)]
  let ?l = "activity_label (last_person_present s') (last_mobile_in_hand s') (last_laptop_detected s')"
  have m: "map fst (shown s') = map fst (shown s) @ [?l]"
    using fl(9) by (simp add: fl(3,4,5))
  have len: "length (shown s') = length (shown s) + 1"
    using arg_cong[OF m, of length] by simp
  then have ne: "shown s' \<noteq> []" by auto
  have lab: "fst (last (shown s')) = ?l"
    using arg_cong[OF m, of last] ne by (simp add: last_map)
  show ?thesis
    using assms(2) len lab fl(1,3,4,5,10,11,12,13)
    by (simp add: activity_label_def)
qed


theorem activity_hierarchy_witness:
  "\<exists>s'. process_frame 30 (new_analyzer 30 60)
           \<lparr>results = [[\<lparr>cls = 0, xyxy = (0, 0, 100, 100)\<rparr>, \<lparr>cls = 63, xyxy = (0, 50, 80, 90)\<rparr>]],
             key_q = False\<rparr> = Inr s'
      \<and> total_video_frames (stats s') = 1
      \<and> fst (last (shown s')) = ''Working on Laptop''
      \<and> off_camera_frames (stats s') = 0
      \<and> mobile_in_hand_frames (stats s') = 0
      \<and> working_frames (stats s') = 1"
proof -
  let ?s = "new_analyzer 30 60"
  let ?f = "\<lparr>results = [[\<lparr>cls = 0, xyxy = (0, 0, 100, 100)\<rparr>, \<lparr>cls = 63, xyxy = (0, 50, 80, 90)\<rparr>]],
             key_q = False\<rparr>"
  obtain s' where s': "process_frame 30 ?s ?f = Inr s'"
    using process_frame_total[of 30 ?s ?f] by auto
  have inv: "total_video_frames (stats ?s) = frame_count ?s"
    by (simp add: new_analyzer_def)
  have d: "last_person_present (detect ?s ?f)" "\<not> last_mobile_in_hand (detect ?s ?f)"
      "last_laptop_detected (detect ?s ?f)"
    by (simp_all add: detect_def new_analyzer_def FRAME_SKIP_def person_boxes_of_def
          laptop_keyboard_of_def mobile_in_hand_of_def eval_defs)
  have z: "off_camera_frames (stats ?s) = 0" "mobile_in_hand_frames (stats ?s) = 0"
      "working_frames (stats ?s) = 0" "total_video_frames (stats ?s) = 0"
    by (simp_all add: new_analyzer_def)
  show ?thesis
    using activity_hierarchy[OF s' inv] s' d z by simp
qed

lemma cached_after:
  assumes "process_frame fps s f = Inr s'"
  shows "cached s' = (if frame_count s mod FRAME_SKIP = 0 then snapshot_of (results f) else cached s)"
  using process_frame_fields(3,4,5)[OF assms]
  by (simp add: cached_def snapshot_of_def detect_def)

lemma skip_index:
  "Suc k mod 5 \<noteq> 0 \<Longrightarrow> Suc k - Suc k mod 5 = k - k mod 5"
  by (simp add: mod_Suc split: if_splits)

lemma mod5_shift:
  assumes "a mod 5 = (0::int)"
  shows "((a + int k) mod 5 = 0) = (k mod 5 = 0)"
proof -
  have "(a + int k) mod 5 = (a mod 5 + int k mod 5) mod 5"
    by (simp add: mod_add_eq)
  also have "\<dots> = int (k mod 5)"
    using assms by (simp add: zmod_int)
  finally show ?thesis by simp
qed

lemma cached_run:
  assumes "frame_loop fps s0 (fs @ [f]) = Inr s'"
    and "frame_count s0 mod FRAME_SKIP = 0"
    and "\<forall>x\<in>set fs. \<not> key_q x"
  shows "cached s' = snapshot_of (results ((fs @ [f]) ! (length fs - length fs mod 5)))"
  using assms
proof (induction fs arbitrary: f s' rule: rev_induct)
  case Nil
  then have "process_frame fps s0 f = Inr s'" by (simp split: sum.splits if_splits)
  from cached_after[OF this] Nil.prems(2) show ?case by simp
next
  case (snoc g gs)
  from snoc.prems(3) have nq: "\<forall>x\<in>set gs. \<not> key_q x" and nq': "\<forall>x\<in>set (gs @ [g]). \<not> key_q x"
    by auto
  obtain s1 where s1: "frame_loop fps s0 (gs @ [g]) = Inr s1"
    and st: "process_frame fps s1 f = Inr s'"
    using frame_loop_snoc_Inr[OF nq' snoc.prems(1)] by blast
  have fc: "frame_count s1 = frame_count s0 + int (Suc (length gs))"
    using frame_loop_frame_count[OF nq' s1] by simp
  have modeq: "(frame_count s1 mod FRAME_SKIP = 0) = (Suc (length gs) mod 5 = 0)"
    using snoc.prems(2) unfolding fc FRAME_SKIP_def by (rule mod5_shift)
  show ?case
  proof (cases "Suc (length gs) mod 5 = 0")
    case True
    with cached_after[OF st] modeq show ?thesis
      by (simp add: nth_append)
  next
    case False
    have ih: "cached s1 = snapshot_of (results ((gs @ [g]) ! (length gs - length gs mod 5)))"
      by (rule snoc.IH[OF s1 snoc.prems(2) nq])
    have le: "length gs - length gs mod 5 < Suc (length gs)" by simp
    from cached_after[OF st] modeq False have "cached s' = cached s1" by simp
    with ih skip_index[OF False] le show ?thesis
      by (simp add: nth_append)
  qed
qed

text \<open>
  Claim C7. Let the loop start at a frame count that is a multiple of \<open>FRAME_SKIP\<close>
  (a new analyzer starts at 0) and process the frames \<open>fs @ [f]\<close>; the last frame has
  index \<open>k = length fs\<close>. The cached flags used on frame \<open>k\<close> are the detector's
  result on the most recent sampled frame, the one with index \<open>k - k mod FRAME_SKIP\<close>.
  When \<open>k mod FRAME_SKIP = 0\<close> they are replaced by the result on \<open>f\<close> itself; when
  \<open>k mod FRAME_SKIP \<noteq> 0\<close> they are those of the state before the frame, and the
  outcome of the frame does not depend on the frame's own detections (the detector is not
  run on it).
\<close>

theorem frame_sampler_cache:
  assumes "frame_loop fps s0 (fs @ [f]) = Inr s'"
    and "frame_count s0 mod FRAME_SKIP = 0"
    and "\<forall>x\<in>set fs. \<not> key_q x"
  shows "cached s' = snapshot_of (results ((fs @ [f]) ! (length fs - length fs mod nat FRAME_SKIP)))
     \<and> (length fs mod nat FRAME_SKIP = 0 \<longrightarrow> cached s' = snapshot_of (results f))
     \<and> (length fs mod nat FRAME_SKIP \<noteq> 0 \<longrightarrow>
          (\<exists>s1. frame_loop fps s0 fs = Inr s1 \<and> cached s' = cached s1)
          \<and> (\<forall>g. frame_loop fps s0 (fs @ [g]) = Inr s'))"
proof -
  have five: "nat FRAME_SKIP = 5" by (simp add: FRAME_SKIP_def)
  obtain s1 where s1: "frame_loop fps s0 fs = Inr s1"
    and st: "process_frame fps s1 f = Inr s'"
    using frame_loop_snoc_Inr[OF assms(3) assms(1)] by blast
  have fc: "frame_count s1 = frame_count s0 + int (length fs)"
    by (rule frame_loop_frame_count[OF assms(3) s1])
  have modeq: "(frame_count s1 mod FRAME_SKIP = 0) = (length fs mod 5 = 0)"
    using assms(2) unfolding fc FRAME_SKIP_def by (rule mod5_shift)
  have a: "cached s' = snapshot_of (results ((fs @ [f]) ! (length fs - length fs mod 5)))"
    by (rule cached_run[OF assms])
  have b: "cached s' = snapshot_of (results f)" if "length fs mod 5 = 0"
    using cached_after[OF st] modeq that by simp
  have c: "cached s' = cached s1" if "length fs mod 5 \<noteq> 0"
    using cached_after[OF st] modeq that by simp
  have d: "frame_loop fps s0 (fs @ [g]) = Inr s'" if "length fs mod 5 \<noteq> 0" for g
  proof -
    have "frame_count s1 mod FRAME_SKIP \<noteq> 0" using modeq that by simp
    from process_frame_skip[OF this, of fps g f] st s1 show ?thesis
      by (simp add: frame_loop_snoc[OF assms(3)])
  qed
  from a b c d s1 show ?thesis unfolding five by blast
qed


theorem frame_sampler_cache_witness:
  "\<exists>s'. frame_loop 30 (new_analyzer 30 60)
           [\<lparr>results = [[\<lparr>cls = 0, xyxy = (0, 0, 100, 100)\<rparr>]], key_q = False\<rparr>,
            \<lparr>results = [[]], key_q = False\<rparr>,
            \<lparr>results = [[\<lparr>cls = 63, xyxy = (0, 50, 80, 90)\<rparr>]], key_q = False\<rparr>] = Inr s'
      \<and> cached s' = (True, False, False)
      \<and> (\<forall>g. frame_loop 30 (new_analyzer 30 60)
           [\<lparr>results = [[\<lparr>cls = 0, xyxy = (0, 0, 100, 100)\<rparr>]], key_q = False\<rparr>,
            \<lparr>results = [[]], key_q = False\<rparr>, g] = Inr s')"
proof -
  let ?s = "new_analyzer 30 60"
  let ?f1 = "\<lparr>results = [[\<lparr>cls = 0, xyxy = (0, 0, 100, 100)\<rparr>]], key_q = False\<rparr>"
  let ?f2 = "\<lparr>results = [[]], key_q = False\<rparr>"
  let ?f3 = "\<lparr>results = [[\<lparr>cls = 63, xyxy = (0, 50, 80, 90)\<rparr>]], key_q = False\<rparr>"
  obtain s' where "frame_loop 30 ?s [?f1, ?f2, ?f3] = Inr s'"
    using frame_loop_total[of 30 ?s "[?f1, ?f2, ?f3]"] by auto
  then have run: "frame_loop 30 ?s ([?f1, ?f2] @ [?f3]) = Inr s'" by simp
  have fc: "frame_count ?s mod FRAME_SKIP = 0" by (simp add: new_analyzer_def)
  have nq: "\<forall>x\<in>set [?f1, ?f2]. \<not> key_q x" by simp
  have snap: "snapshot_of (results ?f1) = (True, False, False)"
    by (simp add: snapshot_of_def person_boxes_of_def laptop_keyboard_of_def
          mobile_in_hand_of_def eval_defs)
  have idx: "length [?f1, ?f2] mod nat FRAME_SKIP = 2" by (simp add: FRAME_SKIP_def)
  from frame_sampler_cache[OF run fc nq] have
      c: "cached s' = snapshot_of (results (([?f1, ?f2] @ [?f3]) ! (length [?f1, ?f2] - length [?f1, ?f2] mod nat FRAME_SKIP)))"
    and g: "length [?f1, ?f2] mod nat FRAME_SKIP \<noteq> 0 \<longrightarrow> (\<forall>g. frame_loop 30 ?s ([?f1, ?f2] @ [g]) = Inr s')"
    by blast+
  from c have c': "cached s' = (True, False, False)"
    unfolding idx using snap by simp
  from g have g': "\<forall>g. frame_loop 30 ?s [?f1, ?f2, g] = Inr s'"
    unfolding idx by simp
  from run c' g' show ?thesis by auto
qed

subsection \<open>Counters\<close>

lemma analyze_video_Some:
  assumes "analyze_video s v = Inr (s', Some st)"
  shows "isOpened v" and "frame_loop (working_fps s v) (start_state s v) (frames v) = Inr s'"
    and "st = stats s'"
  using assms
  by (auto simp: analyze_video_def start_state_def Let_def split: if_splits sum.splits)

lemma analyze_video_opened:
  "isOpened v \<Longrightarrow> analyze_video s v =
     (case frame_loop (working_fps s v) (start_state s v) (frames v) of
        Inl e \<Rightarrow> Inl e | Inr s2 \<Rightarrow> Inr (s2, Some (stats s2)))"
  by (simp add: analyze_video_def start_state_def Let_def)

lemma analyze_video_returns:
  assumes "isOpened v" and "working_fps s v \<noteq> 0"
  obtains s2 where "analyze_video s v = Inr (s2, Some (stats s2))"
proof -
  obtain s2 where "frame_loop (working_fps s v) (start_state s v) (frames v) = Inr s2"
    using frame_loop_total[OF assms(2)] by blast
  then have "analyze_video s v = Inr (s2, Some (stats s2))"
    by (simp add: analyze_video_opened[OF assms(1)])
  then show ?thesis by (rule that)
qed

lemma count_list_rest: "count_list xs x + length (filter (\<lambda>y. y \<noteq> x) xs) = length xs"
  by (induction xs) auto

lemma count_list_three:
  "a \<noteq> b \<Longrightarrow> a \<noteq> c \<Longrightarrow> b \<noteq> c \<Longrightarrow>
     count_list xs a + count_list xs b + count_list xs c \<le> length xs"
  by (induction xs) auto

lemma labels_step:
  assumes "process_frame fps s f = Inr s'"
  shows "labels s' = labels s @
           [activity_label (last_person_present s') (last_mobile_in_hand s') (last_laptop_detected s')]"
  using process_frame_fields(3,4,5,9)[OF assms] by (simp add: labels_def)

lemma counters_inv_step:
  assumes "process_frame fps s f = Inr s'" and "counters_inv s"
  shows "counters_inv s'"
proof -
  note fl = process_frame_fields[OF assms(1)]
  note ls = labels_step[OF assms(1)]
  from assms(2) have inv:
      "total_video_frames (stats s) = frame_count s"
      "total_video_frames (stats s) = int (length (labels s))"
      "set (labels s) \<subseteq> {''Off-Camera/Missing'', ''Using Mobile Phone'',
                            ''Working on Laptop'', ''Present (Idle/Other)''}"
      "off_camera_frames (stats s) = int (count_list (labels s) ''Off-Camera/Missing'')"
      "mobile_in_hand_frames (stats s) = int (count_list (labels s) ''Using Mobile Phone'')"
      "working_frames (stats s) = int (count_list (labels s) ''Working on Laptop'')"
    by (simp_all add: counters_inv_def)
  have 1: "total_video_frames (stats s') = frame_count s'" using fl(1,10) by simp
  have 2: "total_video_frames (stats s') = int (length (labels s'))"
    using fl(10) inv(1,2) ls by simp
  have 3: "set (labels s') \<subseteq> {''Off-Camera/Missing'', ''Using Mobile Phone'',
                            ''Working on Laptop'', ''Present (Idle/Other)''}"
    using inv(3) unfolding ls by (auto simp: activity_label_def)
  have 4: "off_camera_frames (stats s') = int (count_list (labels s') ''Off-Camera/Missing'')"
    unfolding ls fl(11) inv(4) fl(3)[symmetric] by (simp add: activity_label_def)
  have 5: "mobile_in_hand_frames (stats s') = int (count_list (labels s') ''Using Mobile Phone'')"
    unfolding ls fl(12) inv(5) fl(3,4)[symmetric] by (simp add: activity_label_def)
  have 6: "working_frames (stats s') = int (count_list (labels s') ''Working on Laptop'')"
    unfolding ls fl(13) inv(6) fl(3,4,5)[symmetric] by (simp add: activity_label_def)
  from 1 2 3 4 5 6 show ?thesis unfolding counters_inv_def by blast
qed

lemma counters_inv_loop:
  "frame_loop fps s fs = Inr s' \<Longrightarrow> counters_inv s \<Longrightarrow> counters_inv s'"
proof (induction fs arbitrary: s)
  case Nil
  then show ?case by simp
next
  case (Cons f fs)
  from Cons.prems(1) obtain s1 where s1: "process_frame fps s f = Inr s1"
    and rest: "s' = s1 \<or> frame_loop fps s1 fs = Inr s'"
    by (auto split: sum.splits if_splits)
  from counters_inv_step[OF s1 Cons.prems(2)] rest Cons.IH show ?case by blast
qed

lemma counters_inv_start: "counters_inv (start_state (new_analyzer a t) v)"
  by (simp add: counters_inv_def start_state_def new_analyzer_def labels_def)

lemma counters_mono_step:
  assumes "process_frame fps s f = Inr s'" and "total_video_frames (stats s) = frame_count s"
  shows "total_video_frames (stats s') = frame_count s'
     \<and> total_video_frames (stats s) \<le> total_video_frames (stats s')
     \<and> off_camera_frames (stats s) \<le> off_camera_frames (stats s')
     \<and> mobile_in_hand_frames (stats s) \<le> mobile_in_hand_frames (stats s')
     \<and> working_frames (stats s) \<le> working_frames (stats s')"
  using process_frame_fields(1,10,11,12,13)[OF assms(1)] assms(2) by simp

lemma counters_mono_loop:
  "frame_loop fps s fs = Inr s' \<Longrightarrow> total_video_frames (stats s) = frame_count s \<Longrightarrow>
     total_video_frames (stats s) \<le> total_video_frames (stats s')
     \<and> off_camera_frames (stats s) \<le> off_camera_frames (stats s')
     \<and> mobile_in_hand_frames (stats s) \<le> mobile_in_hand_frames (stats s')
     \<and> working_frames (stats s) \<le> working_frames (stats s')"
proof (induction fs arbitrary: s)
  case Nil
  then show ?case by simp
next
  case (Cons f fs)
  from Cons.prems(1) obtain s1 where s1: "process_frame fps s f = Inr s1"
    and rest: "s' = s1 \<or> frame_loop fps s1 fs = Inr s'"
    by (auto split: sum.splits if_splits)
  note m = counters_mono_step[OF s1 Cons.prems(2)]
  from rest show ?case
  proof
    assume "s' = s1"
    with m show ?thesis by simp
  next
    assume "frame_loop fps s1 fs = Inr s'"
    from Cons.IH[OF this] m show ?thesis by linarith
  qed
qed

lemma frame_loop_take:
  "frame_loop fps s fs = Inr s' \<Longrightarrow> frame_loop fps s (take k fs) = Inr sk \<Longrightarrow>
     \<exists>gs. frame_loop fps sk gs = Inr s'"
proof (induction fs arbitrary: s k)
  case Nil
  then show ?case by (intro exI[of _ "[]"]) simp
next
  case (Cons f fs)
  show ?case
  proof (cases k)
    case 0
    with Cons.prems show ?thesis by (intro exI[of _ "f # fs"]) simp
  next
    case (Suc j)
    from Cons.prems(1) obtain s1 where s1: "process_frame fps s f = Inr s1"
      by (auto split: sum.splits)
    show ?thesis
    proof (cases "key_q f")
      case True
      with Cons.prems s1 Suc have "s' = s1" "sk = s1" by simp_all
      then show ?thesis by (intro exI[of _ "[]"]) simp
    next
      case False
      with Cons.prems s1 Suc have "frame_loop fps s1 fs = Inr s'"
          "frame_loop fps s1 (take j fs) = Inr sk" by simp_all
      then show ?thesis by (rule Cons.IH)
    qed
  qed
qed

text \<open>
  Claim C4. After a run of a new analyzer over any video, every processed frame carries
  exactly one of the four labels; the total equals the number of frames, the off-camera,
  mobile and working counters equal the numbers of frames labelled \<open>Off-Camera/Missing\<close>,
  \<open>Using Mobile Phone\<close> and \<open>Working on Laptop\<close>, so the off-camera frames plus the
  frames where the person was present (any other label) make up the total, a present frame
  is counted by at most one of the two present counters and exactly once, and the three
  counters sum to at most the total. The counters never decrease: after any prefix of the
  video each of them is at most its value after the whole video.
\<close>

theorem counters_partition_frames:
  assumes "analyze_video (new_analyzer a t) v = Inr (s', Some st)"
  shows "total_video_frames st = int (length (labels s'))
     \<and> set (labels s') \<subseteq> {''Off-Camera/Missing'', ''Using Mobile Phone'',
                            ''Working on Laptop'', ''Present (Idle/Other)''}
     \<and> off_camera_frames st = int (count_list (labels s') ''Off-Camera/Missing'')
     \<and> mobile_in_hand_frames st = int (count_list (labels s') ''Using Mobile Phone'')
     \<and> working_frames st = int (count_list (labels s') ''Working on Laptop'')
     \<and> off_camera_frames st
          + int (length (filter (\<lambda>l. l \<noteq> ''Off-Camera/Missing'') (labels s')))
         = total_video_frames st
     \<and> off_camera_frames st + mobile_in_hand_frames st + working_frames st
         \<le> total_video_frames st
     \<and> (\<forall>k sk stk.
          analyze_video (new_analyzer a t) (v\<lparr>frames := take k (frames v)\<rparr>) = Inr (sk, Some stk)
          \<longrightarrow> total_video_frames stk \<le> total_video_frames st
              \<and> off_camera_frames stk \<le> off_camera_frames st
              \<and> mobile_in_hand_frames stk \<le> mobile_in_hand_frames st
              \<and> working_frames stk \<le> working_frames st)"
proof -
  let ?n = "new_analyzer a t"
  note av = analyze_video_Some[OF assms]
  have inv: "counters_inv s'"
    by (rule counters_inv_loop[OF av(2) counters_inv_start])
  then have c: "total_video_frames st = int (length (labels s'))"
      "set (labels s') \<subseteq> {''Off-Camera/Missing'', ''Using Mobile Phone'',
                            ''Working on Laptop'', ''Present (Idle/Other)''}"
      "off_camera_frames st = int (count_list (labels s') ''Off-Camera/Missing'')"
      "mobile_in_hand_frames st = int (count_list (labels s') ''Using Mobile Phone'')"
      "working_frames st = int (count_list (labels s') ''Working on Laptop'')"
    unfolding av(3) by (simp_all add: counters_inv_def)
  have p: "off_camera_frames st
          + int (length (filter (\<lambda>l. l \<noteq> ''Off-Camera/Missing'') (labels s')))
         = total_video_frames st"
    unfolding c(1,3) using count_list_rest[of "labels s'" "''Off-Camera/Missing''"] by linarith
  have le: "off_camera_frames st + mobile_in_hand_frames st + working_frames st
         \<le> total_video_frames st"
    unfolding c(1,3,4,5)
    using count_list_three[of "''Off-Camera/Missing''" "''Using Mobile Phone''"
            "''Working on Laptop''" "labels s'"]
    by simp
  have mono: "total_video_frames stk \<le> total_video_frames st
              \<and> off_camera_frames stk \<le> off_camera_frames st
              \<and> mobile_in_hand_frames stk \<le> mobile_in_hand_frames st
              \<and> working_frames stk \<le> working_frames st"
    if pre: "analyze_video ?n (v\<lparr>frames := take k (frames v)\<rparr>) = Inr (sk, Some stk)"
    for k sk stk
  proof -
    note ak = analyze_video_Some[OF pre]
    have same: "working_fps ?n (v\<lparr>frames := take k (frames v)\<rparr>) = working_fps ?n v"
        "start_state ?n (v\<lparr>frames := take k (frames v)\<rparr>) = start_state ?n v"
      by (simp_all add: working_fps_def start_state_def)
    from ak(2) have runk: "frame_loop (working_fps ?n v) (start_state ?n v) (take k (frames v)) = Inr sk"
      by (simp add: same)
    from frame_loop_take[OF av(2) runk] obtain gs where
        gs: "frame_loop (working_fps ?n v) sk gs = Inr s'" by blast
    have "counters_inv sk"
      by (rule counters_inv_loop[OF runk counters_inv_start])
    then have "total_video_frames (stats sk) = frame_count sk"
      by (simp add: counters_inv_def)
    from counters_mono_loop[OF gs this] show ?thesis
      unfolding ak(3) av(3) .
  qed
  from c p le mono show ?thesis by blast
qed


lemmas run_defs = analyze_video_def working_fps_def new_analyzer_def py_int_def
  process_frame_def detect_def mobile_duration_def activity_inference_def missing_alert_def
  alert_time_str_def log_event_def py_truediv_def py_floordiv_def py_mod_def fmt02_def
  digits.simps Let_def FRAME_SKIP_def person_boxes_of_def mobile_in_hand_of_def
  laptop_keyboard_of_def eval_defs horizontal_prox_def vertical_prox_def touches_def
  intersection_area_def py_mobile_zone_def

theorem counters_partition_frames_witness:
  "\<exists>s' st. analyze_video (new_analyzer 30 60)
       \<lparr>isOpened = True, CAP_PROP_FPS = 30,
         frames = [\<lparr>results = [[\<lparr>cls = 0, xyxy = (0, 0, 100, 100)\<rparr>,
                                \<lparr>cls = 67, xyxy = (40, 30, 60, 50)\<rparr>]], key_q = False\<rparr>,
                   \<lparr>results = [[]], key_q = False\<rparr>]\<rparr> = Inr (s', Some st)
     \<and> labels s' = [''Using Mobile Phone'', ''Using Mobile Phone'']
     \<and> total_video_frames st = 2
     \<and> off_camera_frames st = 0
     \<and> mobile_in_hand_frames st = 2
     \<and> working_frames st = 0
     \<and> off_camera_frames st + mobile_in_hand_frames st + working_frames st
         \<le> total_video_frames st"
proof -
  let ?n = "new_analyzer 30 60"
  let ?v = "\<lparr>isOpened = True, CAP_PROP_FPS = 30,
         frames = [\<lparr>results = [[\<lparr>cls = 0, xyxy = (0, 0, 100, 100)\<rparr>,
                                \<lparr>cls = 67, xyxy = (40, 30, 60, 50)\<rparr>]], key_q = False\<rparr>,
                   \<lparr>results = [[]], key_q = False\<rparr>]\<rparr>"
  have op: "isOpened ?v" and nz: "working_fps ?n ?v \<noteq> 0"
    by (simp_all add: working_fps_def)
  obtain s2 where run: "analyze_video ?n ?v = Inr (s2, Some (stats s2))"
    by (rule analyze_video_returns[OF op nz])
  have ev: "labels s2 = [''Using Mobile Phone'', ''Using Mobile Phone'']"
    using run by (auto simp: run_defs labels_def)
  from counters_partition_frames[OF run] ev run show ?thesis
    by simp
qed

subsection \<open>The off-camera tracker\<close>

lemma no_person_no_mobile: "person_boxes_of rs = [] \<Longrightarrow> \<not> mobile_in_hand_of rs"
  by (simp add: mobile_in_hand_of_iff)

lemma detect_absent:
  assumes "sampled (frame_count s) \<longrightarrow> person_boxes_of (results f) = []"
    and "\<not> sampled (frame_count s) \<longrightarrow> \<not> last_person_present s"
  shows "\<not> last_person_present (detect s f)"
  using assms by (auto simp: detect_def sampled_def)

lemma detect_absent_mobile:
  assumes "sampled (frame_count s) \<longrightarrow> person_boxes_of (results f) = []"
    and "\<not> sampled (frame_count s) \<longrightarrow> \<not> last_mobile_in_hand s"
  shows "\<not> last_mobile_in_hand (detect s f)"
  using assms by (auto simp: detect_def sampled_def no_person_no_mobile)

lemma filter_alert_events:
  "filter (\<lambda>e. ev_label e = ''person_missing_alert'') (mobile_events_of fps c) = []"
  "filter (\<lambda>e. ev_label e = ''person_missing_alert'') (alert_events_of fps c) = alert_events_of fps c"
  by (simp_all add: mobile_events_of_def alert_events_of_def mobile_start_event_def
        mobile_end_event_def missing_alert_event_def)

lemma filter_mobile_events:
  "filter (\<lambda>e. ev_label e = ''mobile_in_hand_start'' \<or> ev_label e = ''mobile_in_hand_end'')
     (mobile_events_of fps c) = mobile_events_of fps c"
  "filter (\<lambda>e. ev_label e = ''mobile_in_hand_start'' \<or> ev_label e = ''mobile_in_hand_end'')
     (alert_events_of fps c) = []"
  by (simp_all add: mobile_events_of_def alert_events_of_def mobile_start_event_def
        mobile_end_event_def missing_alert_event_def)

lemma alerts_step:
  assumes "process_frame fps s f = Inr s'"
  shows "alerts s' = alerts s @ alert_events_of fps (detect s f)"
  using process_frame_fields(8)[OF assms] by (simp add: alerts_def filter_alert_events)

lemma mobile_events_step:
  assumes "process_frame fps s f = Inr s'"
  shows "mobile_events s' = mobile_events s @ mobile_events_of fps (detect s f)"
  using process_frame_fields(8)[OF assms] by (simp add: mobile_events_def filter_mobile_events)

lemma off_start_elapsed: "off_start (detect s f) = frame_count s - elapsed s"
  by (simp add: off_start_def elapsed_def detect_fields)

lemma alert_due_elapsed: "alert_due (detect s f) \<longleftrightarrow> alert_duration_frames s \<le> elapsed s"
  by (simp add: alert_due_def off_start_elapsed detect_fields)

lemma absent_step:
  assumes run: "process_frame fps s f = Inr s'"
    and absent: "\<not> last_person_present (detect s f)"
    and e0: "0 \<le> elapsed s" and e1: "elapsed s \<le> frame_count s"
  shows "\<not> last_person_present s'"
    and "off_camera_frames (stats s') = off_camera_frames (stats s) + 1"
    and "elapsed s' = (if alert_duration_frames s \<le> elapsed s then 0 else elapsed s + 1)"
    and "alerts s' = alerts s @
           (if alert_duration_frames s \<le> elapsed s
            then [missing_alert_event (frame_count s) (of_int (elapsed s) / fps)] else [])"
    and "alert_events_of fps (detect s f) =
           (if alert_duration_frames s \<le> elapsed s
            then [missing_alert_event (frame_count s) (of_int (elapsed s) / fps)] else [])"
proof -
  note fl = process_frame_fields[OF run]
  show "\<not> last_person_present s'" using fl(3) absent by simp
  show "off_camera_frames (stats s') = off_camera_frames (stats s) + 1"
    using fl(11) absent by simp
  have st: "off_camera_start_frame s' =
      (if alert_duration_frames s \<le> elapsed s then - 1 else frame_count s - elapsed s)"
    using fl(7) absent by (simp add: off_start_next_def alert_due_elapsed off_start_elapsed)
  show "elapsed s' = (if alert_duration_frames s \<le> elapsed s then 0 else elapsed s + 1)"
    using e0 e1 unfolding elapsed_def[of s'] st fl(1) by simp
  show ev: "alert_events_of fps (detect s f) =
           (if alert_duration_frames s \<le> elapsed s
            then [missing_alert_event (frame_count s) (of_int (elapsed s) / fps)] else [])"
    using absent
    by (simp add: alert_events_of_def alert_due_elapsed off_start_elapsed detect_fields)
  show "alerts s' = alerts s @
           (if alert_duration_frames s \<le> elapsed s
            then [missing_alert_event (frame_count s) (of_int (elapsed s) / fps)] else [])"
    unfolding alerts_step[OF run] ev ..
qed


lemma period_fire:
  assumes "Suc (n mod P) = P"
  shows "Suc n mod P = 0" and "Suc n div P = Suc (n div P)"
  using assms by (simp_all add: mod_Suc div_Suc)

lemma period_wait:
  assumes "Suc (n mod P) \<noteq> P"
  shows "Suc n mod P = Suc (n mod P)" and "Suc n div P = n div P"
  using assms by (simp_all add: mod_Suc div_Suc)

lemma period_due:
  assumes "0 \<le> T" and "P = nat T + 1"
  shows "(T \<le> int (n mod P)) = (Suc (n mod P) = P)"
proof -
  have "n mod P < P" using assms(2) by simp
  then show ?thesis using assms by linarith
qed

lemma period_index:
  assumes "0 \<le> T" and "P = nat T + 1" and "Suc (n mod P) = P"
  shows "int n = int (n div P) * (T + 1) + T" and "int (n mod P) = T"
proof -
  have ip: "int P = T + 1" using assms(1,2) by simp
  show m: "int (n mod P) = T" using assms by linarith
  have "int (n div P * P + n mod P) = int (n div P) * int P + int (n mod P)"
    by (simp only: of_nat_add of_nat_mult)
  moreover have "n div P * P + n mod P = n" by simp
  ultimately have "int n = int (n div P) * int P + int (n mod P)" by simp
  then show "int n = int (n div P) * (T + 1) + T" unfolding ip m .
qed

lemma absent_run:
  assumes fps: "fps \<noteq> 0"
    and T: "alert_duration_frames s = T" and T0: "0 \<le> T" and P: "P = nat T + 1"
    and fc0: "0 \<le> frame_count s"
    and idle: "off_camera_start_frame s = - 1"
    and cache: "\<not> sampled (frame_count s) \<longrightarrow> \<not> last_person_present s"
    and abs: "\<forall>i<length fs. sampled (frame_count s + int i)
                \<longrightarrow> person_boxes_of (results (fs ! i)) = []"
    and nq: "\<forall>x\<in>set fs. \<not> key_q x"
  shows "\<exists>s'. frame_loop fps s fs = Inr s'
     \<and> frame_count s' = frame_count s + int (length fs)
     \<and> alert_duration_frames s' = T
     \<and> (\<not> sampled (frame_count s') \<longrightarrow> \<not> last_person_present s')
     \<and> (fs \<noteq> [] \<longrightarrow> \<not> last_person_present s')
     \<and> elapsed s' = int (length fs mod P)
     \<and> alerts s' = alerts s @
          map (\<lambda>k. missing_alert_event (frame_count s + int k * (T + 1) + T) (of_int T / fps))
            [0..<length fs div P]
     \<and> off_camera_frames (stats s') = off_camera_frames (stats s) + int (length fs)
     \<and> (mobile_in_hand_start_frame s = - 1
          \<and> (\<not> sampled (frame_count s) \<longrightarrow> \<not> last_mobile_in_hand s) \<longrightarrow>
        mobile_in_hand_start_frame s' = - 1
          \<and> (\<not> sampled (frame_count s') \<longrightarrow> \<not> last_mobile_in_hand s')
          \<and> log s' = log s @
               map (\<lambda>k. missing_alert_event (frame_count s + int k * (T + 1) + T) (of_int T / fps))
                 [0..<length fs div P])"
  using abs nq
proof (induction fs rule: rev_induct)
  case Nil
  show ?case using T cache idle by (simp add: elapsed_def)
next
  case (snoc f fs)
  let ?n = "length fs"
  let ?A = "\<lambda>q. map (\<lambda>k. missing_alert_event (frame_count s + int k * (T + 1) + T)
                        (of_int T / fps)) [0..<q]"
  have abs': "\<forall>i<length fs. sampled (frame_count s + int i)
                \<longrightarrow> person_boxes_of (results (fs ! i)) = []"
  proof (intro allI impI)
    fix i assume i: "i < length fs" and sm: "sampled (frame_count s + int i)"
    from snoc.prems(1) i sm have "person_boxes_of (results ((fs @ [f]) ! i)) = []" by simp
    with i show "person_boxes_of (results (fs ! i)) = []" by (simp add: nth_append)
  qed
  have absf: "sampled (frame_count s + int ?n) \<longrightarrow> person_boxes_of (results f) = []"
    using snoc.prems(1) by (auto simp: nth_append dest: spec[of _ "length fs"])
  from snoc.prems(2) have nq': "\<forall>x\<in>set fs. \<not> key_q x" by simp
  from snoc.IH[OF abs' nq'] obtain s1 where
      run1: "frame_loop fps s fs = Inr s1"
    and fc1: "frame_count s1 = frame_count s + int ?n"
    and T1: "alert_duration_frames s1 = T"
    and ca1: "\<not> sampled (frame_count s1) \<longrightarrow> \<not> last_person_present s1"
    and el1: "elapsed s1 = int (?n mod P)"
    and al1: "alerts s1 = alerts s @ ?A (?n div P)"
    and off1: "off_camera_frames (stats s1) = off_camera_frames (stats s) + int ?n"
    and mob1: "mobile_in_hand_start_frame s = - 1
          \<and> (\<not> sampled (frame_count s) \<longrightarrow> \<not> last_mobile_in_hand s) \<longrightarrow>
        mobile_in_hand_start_frame s1 = - 1
          \<and> (\<not> sampled (frame_count s1) \<longrightarrow> \<not> last_mobile_in_hand s1)
          \<and> log s1 = log s @ ?A (?n div P)"
    by blast
  obtain s' where st: "process_frame fps s1 f = Inr s'"
    using process_frame_total[OF fps] by blast
  have run: "frame_loop fps s (fs @ [f]) = Inr s'"
    by (simp add: frame_loop_snoc[OF nq'] run1 st)
  note fl = process_frame_fields[OF st]
  have absent: "\<not> last_person_present (detect s1 f)"
    by (rule detect_absent) (use absf ca1 fc1 in simp_all)
  have e0: "0 \<le> elapsed s1" unfolding el1 by simp
  have "int (?n mod P) \<le> int ?n" by simp
  then have e1: "elapsed s1 \<le> frame_count s1" unfolding el1 fc1 using fc0 by linarith
  note as = absent_step[OF st absent e0 e1]
  have due: "(alert_duration_frames s1 \<le> elapsed s1) = (Suc (?n mod P) = P)"
    unfolding T1 el1 by (rule period_due[OF T0 P])
  have fc': "frame_count s' = frame_count s + int (length (fs @ [f]))"
    using fl(1) fc1 by simp
  have T': "alert_duration_frames s' = T" using fl(2) T1 by simp
  have off': "off_camera_frames (stats s') = off_camera_frames (stats s) + int (length (fs @ [f]))"
    using as(2) off1 by simp
  have el_al: "elapsed s' = int (Suc ?n mod P)
      \<and> alert_events_of fps (detect s1 f) @ [] = drop (?n div P) (?A (Suc ?n div P))"
  proof (cases "Suc (?n mod P) = P")
    case True
    note pf = period_fire[OF True] and pi = period_index[OF T0 P True]
    have "frame_count s1 = frame_count s + int (?n div P) * (T + 1) + T"
      unfolding fc1 using pi(1) by linarith
    then show ?thesis
      using as(3,5) due True pf el1 pi(2) by simp
  next
    case False
    note pw = period_wait[OF False]
    show ?thesis using as(3,5) due False pw el1 by simp
  qed
  have split: "?A (Suc ?n div P) = ?A (?n div P) @ drop (?n div P) (?A (Suc ?n div P))"
  proof (cases "Suc (?n mod P) = P")
    case True
    show ?thesis unfolding period_fire(2)[OF True] by simp
  next
    case False
    show ?thesis unfolding period_wait(2)[OF False] by simp
  qed
  have al': "alerts s' = alerts s @ ?A (length (fs @ [f]) div P)"
    unfolding alerts_step[OF st] al1 using el_al split by simp
  have mob': "mobile_in_hand_start_frame s' = - 1
          \<and> (\<not> sampled (frame_count s') \<longrightarrow> \<not> last_mobile_in_hand s')
          \<and> log s' = log s @ ?A (length (fs @ [f]) div P)"
    if idle_m: "mobile_in_hand_start_frame s = - 1
          \<and> (\<not> sampled (frame_count s) \<longrightarrow> \<not> last_mobile_in_hand s)"
  proof -
    from mob1 idle_m have m1: "mobile_in_hand_start_frame s1 = - 1"
      and m2: "\<not> sampled (frame_count s1) \<longrightarrow> \<not> last_mobile_in_hand s1"
      and m3: "log s1 = log s @ ?A (?n div P)" by blast+
    have nm: "\<not> last_mobile_in_hand (detect s1 f)"
      by (rule detect_absent_mobile) (use absf m2 fc1 in simp_all)
    have me: "mobile_events_of fps (detect s1 f) = []"
      using nm m1 by (simp add: mobile_events_of_def detect_fields)
    have ms: "mobile_start_next (detect s1 f) = - 1"
      using nm m1 by (simp add: mobile_start_next_def detect_fields)
    have "log s' = log s @ ?A (length (fs @ [f]) div P)"
      unfolding fl(8) me m3 using el_al split by simp
    with fl(4,6) nm ms show ?thesis by simp
  qed
  from run fc' T' as(1) el_al al' off' mob' show ?case by auto
qed


text \<open>
  Claim C1 (amended). Let the off-camera tracker be idle (\<open>off_camera_start_frame = -1\<close>)
  and let the person be absent on the next \<open>n\<close> frames (no person box on the sampled
  ones, and the cached flag already false if the first one is not sampled). An alert fires
  on the frame where the elapsed frame count reaches \<open>alert_duration_frames\<close>, the
  following frame starts a new waiting period, so the period is
  \<open>alert_duration_frames + 1\<close> frames: exactly \<open>n div (alert_duration_frames + 1)\<close>
  alerts are emitted, the \<open>k\<close>-th (from 0) on frame
  \<open>frame_count + k * (alert_duration_frames + 1) + alert_duration_frames\<close>, each with
  duration \<open>alert_duration_frames / fps\<close>, and \<open>off_camera_frames\<close> grows by \<open>n\<close>.
\<close>

theorem missing_alert_period:
  assumes "fps \<noteq> 0" and "0 \<le> alert_duration_frames s" and "0 \<le> frame_count s"
    and "off_camera_start_frame s = - 1"
    and "\<not> sampled (frame_count s) \<longrightarrow> \<not> last_person_present s"
    and "\<forall>i<length fs. sampled (frame_count s + int i)
           \<longrightarrow> person_boxes_of (results (fs ! i)) = []"
    and "\<forall>x\<in>set fs. \<not> key_q x"
  shows "\<exists>s'. frame_loop fps s fs = Inr s'
     \<and> alerts s' = alerts s @
          map (\<lambda>k. missing_alert_event
                     (frame_count s + int k * (alert_duration_frames s + 1) + alert_duration_frames s)
                     (of_int (alert_duration_frames s) / fps))
            [0..<length fs div (nat (alert_duration_frames s) + 1)]
     \<and> length (alerts s') = length (alerts s) + length fs div (nat (alert_duration_frames s) + 1)
     \<and> off_camera_frames (stats s') = off_camera_frames (stats s) + int (length fs)"
proof -
  from absent_run[OF assms(1) refl assms(2) refl assms(3-7)] obtain s' where
      r: "frame_loop fps s fs = Inr s'"
    and a: "alerts s' = alerts s @
          map (\<lambda>k. missing_alert_event
                     (frame_count s + int k * (alert_duration_frames s + 1) + alert_duration_frames s)
                     (of_int (alert_duration_frames s) / fps))
            [0..<length fs div (nat (alert_duration_frames s) + 1)]"
    and c: "off_camera_frames (stats s') = off_camera_frames (stats s) + int (length fs)"
    by blast
  from arg_cong[OF a, of length]
  have "length (alerts s') = length (alerts s) + length fs div (nat (alert_duration_frames s) + 1)"
    by simp
  with r a c show ?thesis by blast
qed


lemma scenario_start:
  "alert_duration_frames (start_state (new_analyzer 2 60)
       \<lparr>isOpened = True, CAP_PROP_FPS = 30, frames = fs\<rparr>) = 60"
  "frame_count (start_state (new_analyzer 2 60) v) = 0"
  "off_camera_start_frame (start_state (new_analyzer 2 60) v) = - 1"
  "\<not> last_person_present (start_state (new_analyzer 2 60) v)"
  "alerts (start_state (new_analyzer 2 60) v) = []"
  "off_camera_frames (stats (start_state (new_analyzer 2 60) v)) = 0"
  "working_fps (new_analyzer 2 60) \<lparr>isOpened = True, CAP_PROP_FPS = 30, frames = fs\<rparr> = 30"
  by (simp_all add: start_state_def working_fps_def new_analyzer_def py_int_def alerts_def)

lemma empty_frames_absent:
  "\<forall>i<length (replicate n \<lparr>results = [[]], key_q = False\<rparr>).
      sampled (c + int i) \<longrightarrow>
      person_boxes_of (results (replicate n \<lparr>results = [[]], key_q = False\<rparr> ! i)) = []"
  "\<forall>x\<in>set (replicate n \<lparr>results = [[]], key_q = False\<rparr>). \<not> key_q x"
  by (simp_all add: person_boxes_of_def)

theorem missing_alert_period_witness:
  "\<exists>s' st. analyze_video (new_analyzer 2 60)
       \<lparr>isOpened = True, CAP_PROP_FPS = 30,
         frames = replicate 150 \<lparr>results = [[]], key_q = False\<rparr>\<rparr> = Inr (s', Some st)
     \<and> alerts s' = [missing_alert_event 60 2, missing_alert_event 121 2]
     \<and> length (alerts s') = 2
     \<and> off_camera_frames st = 150"
proof -
  let ?fs = "replicate 150 \<lparr>results = [[]], key_q = False\<rparr>"
  let ?v = "\<lparr>isOpened = True, CAP_PROP_FPS = 30, frames = ?fs\<rparr>"
  let ?s = "start_state (new_analyzer 2 60) ?v"
  have h1: "(30::rat) \<noteq> 0" by simp
  have h2: "0 \<le> alert_duration_frames ?s" by (simp add: scenario_start)
  have h3: "0 \<le> frame_count ?s" by (simp add: scenario_start)
  have h4: "off_camera_start_frame ?s = - 1" by (simp add: scenario_start)
  have h5: "\<not> sampled (frame_count ?s) \<longrightarrow> \<not> last_person_present ?s"
    by (simp add: scenario_start)
  have h6: "\<forall>i<length ?fs. sampled (frame_count ?s + int i)
           \<longrightarrow> person_boxes_of (results (?fs ! i)) = []"
    by (rule empty_frames_absent)
  have h7: "\<forall>x\<in>set ?fs. \<not> key_q x" by (rule empty_frames_absent)
  from missing_alert_period[OF h1 h2 h3 h4 h5 h6 h7] obtain s' where
      r: "frame_loop 30 ?s ?fs = Inr s'"
    and a: "alerts s' = alerts ?s @
          map (\<lambda>k. missing_alert_event
                     (frame_count ?s + int k * (alert_duration_frames ?s + 1) + alert_duration_frames ?s)
                     (of_int (alert_duration_frames ?s) / 30))
            [0..<length ?fs div (nat (alert_duration_frames ?s) + 1)]"
    and c: "off_camera_frames (stats s') = off_camera_frames (stats ?s) + int (length ?fs)"
    by blast
  have two: "[0..<length ?fs div (nat (60::int) + 1)] = [0, 1]"
    by (simp add: upt_conv_Cons)
  have a': "alerts s' = [missing_alert_event 60 2, missing_alert_event 121 2]"
    using a unfolding scenario_start two by simp
  have c': "off_camera_frames (stats s') = 150"
    using c unfolding scenario_start by simp
  have "analyze_video (new_analyzer 2 60) ?v = Inr (s', Some (stats s'))"
    using r by (simp add: analyze_video_opened scenario_start)
  with a' c' show ?thesis by simp
qed

text \<open>
  The claim C1 as stated fails. With fps 30 and an alert duration of 2 seconds (threshold
  60 frames) and no person on the frames 0 to 149, the alerts are logged on the frames 60
  and 121, not 59 and 119; and 60 absent frames (M = 1, r = 0) give no alert at all.
\<close>

theorem missing_alert_period_counterexample:
  "run_alert_frames (new_analyzer 2 60)
       \<lparr>isOpened = True, CAP_PROP_FPS = 30,
         frames = replicate 150 \<lparr>results = [[]], key_q = False\<rparr>\<rparr> = [60, 121]
   \<and> run_alert_frames (new_analyzer 2 60)
       \<lparr>isOpened = True, CAP_PROP_FPS = 30,
         frames = replicate 60 \<lparr>results = [[]], key_q = False\<rparr>\<rparr> = []"
proof -
  have run: "\<exists>s'. analyze_video (new_analyzer 2 60)
       \<lparr>isOpened = True, CAP_PROP_FPS = 30,
         frames = replicate n \<lparr>results = [[]], key_q = False\<rparr>\<rparr> = Inr (s', Some (stats s'))
     \<and> alerts s' = map (\<lambda>k. missing_alert_event (int k * 61 + 60) 2) [0..<n div 61]" for n
  proof -
    let ?fs = "replicate n \<lparr>results = [[]], key_q = False\<rparr>"
    let ?v = "\<lparr>isOpened = True, CAP_PROP_FPS = 30, frames = ?fs\<rparr>"
    let ?s = "start_state (new_analyzer 2 60) ?v"
    have T: "alert_duration_frames ?s = 60" by (simp add: scenario_start)
    have P: "(61::nat) = nat 60 + 1" by simp
    have h5: "\<not> sampled (frame_count ?s) \<longrightarrow> \<not> last_person_present ?s"
      by (simp add: scenario_start)
    from absent_run[of 30 ?s 60 61 ?fs, OF _ T _ P _ _ h5 empty_frames_absent]
    obtain s' where r: "frame_loop 30 ?s ?fs = Inr s'"
      and a: "alerts s' = alerts ?s @
          map (\<lambda>k. missing_alert_event (frame_count ?s + int k * (60 + 1) + 60) (of_int 60 / 30))
            [0..<length ?fs div 61]"
      by (auto simp: scenario_start)
    have "analyze_video (new_analyzer 2 60) ?v = Inr (s', Some (stats s'))"
      using r by (simp add: analyze_video_opened scenario_start)
    moreover have "alerts s' = map (\<lambda>k. missing_alert_event (int k * 61 + 60) 2) [0..<n div 61]"
      using a by (simp add: scenario_start)
    ultimately show ?thesis by blast
  qed
  have two: "[0..<150 div 61] = [0, 1]" by (simp add: upt_conv_Cons)
  from run[of 150] run[of 60] show ?thesis
    unfolding two by (auto simp: run_alert_frames_def missing_alert_event_def)
qed


lemma present_step:
  assumes run: "process_frame fps s f = Inr s'"
    and present: "last_person_present (detect s f)"
  shows "last_person_present s'" and "off_camera_start_frame s' = - 1"
    and "alerts s' = alerts s"
proof -
  note fl = process_frame_fields[OF run]
  show "last_person_present s'" using fl(3) present by simp
  show "off_camera_start_frame s' = - 1" using fl(7) present by (simp add: off_start_next_def)
  show "alerts s' = alerts s"
    unfolding alerts_step[OF run] using present by (simp add: alert_events_of_def)
qed

lemma detect_present:
  assumes "sampled (frame_count s)" and "person_boxes_of (results f) \<noteq> []"
  shows "last_person_present (detect s f)"
  using assms by (simp add: detect_def sampled_def)

text \<open>
  Claim C9. Let the off-camera tracker be idle and the person be absent on the frames
  \<open>fs\<close>, at most \<open>alert_duration_frames\<close> of them (the elapsed count stays below the
  threshold), and let the person be detected again on the next, sampled frame \<open>g\<close>.
  Then no \<open>person_missing_alert\<close> is logged on any of these frames, the tracker's
  start frame is \<open>-1\<close> after \<open>g\<close>, and, when the mobile tracker is idle too, nothing
  at all is logged during the absence.
\<close>

theorem silent_recovery:
  assumes "fps \<noteq> 0" and "0 \<le> frame_count s"
    and "off_camera_start_frame s = - 1"
    and "\<not> sampled (frame_count s) \<longrightarrow> \<not> last_person_present s"
    and "\<forall>i<length fs. sampled (frame_count s + int i)
           \<longrightarrow> person_boxes_of (results (fs ! i)) = []"
    and "\<forall>x\<in>set fs. \<not> key_q x"
    and "int (length fs) \<le> alert_duration_frames s"
    and "sampled (frame_count s + int (length fs))"
    and "person_boxes_of (results g) \<noteq> []"
  shows "\<exists>s1 s'. frame_loop fps s fs = Inr s1
     \<and> process_frame fps s1 g = Inr s'
     \<and> frame_loop fps s (fs @ [g]) = Inr s'
     \<and> (fs \<noteq> [] \<longrightarrow> \<not> last_person_present s1)
     \<and> off_camera_frames (stats s1) = off_camera_frames (stats s) + int (length fs)
     \<and> alerts s1 = alerts s
     \<and> (mobile_in_hand_start_frame s = - 1
          \<and> (\<not> sampled (frame_count s) \<longrightarrow> \<not> last_mobile_in_hand s) \<longrightarrow> log s1 = log s)
     \<and> last_person_present s'
     \<and> alerts s' = alerts s
     \<and> off_camera_start_frame s' = - 1"
proof -
  let ?T = "alert_duration_frames s"
  have T0: "0 \<le> ?T" using assms(7) by linarith
  have small: "length fs div (nat ?T + 1) = 0" using assms(7) by simp
  from absent_run[OF assms(1) refl T0 refl assms(2-6)] obtain s1 where
      r1: "frame_loop fps s fs = Inr s1"
    and fc1: "frame_count s1 = frame_count s + int (length fs)"
    and np: "fs \<noteq> [] \<longrightarrow> \<not> last_person_present s1"
    and off1: "off_camera_frames (stats s1) = off_camera_frames (stats s) + int (length fs)"
    and al1: "alerts s1 = alerts s"
    and lg1: "mobile_in_hand_start_frame s = - 1
          \<and> (\<not> sampled (frame_count s) \<longrightarrow> \<not> last_mobile_in_hand s) \<longrightarrow> log s1 = log s"
    unfolding small by auto
  obtain s' where st: "process_frame fps s1 g = Inr s'"
    using process_frame_total[OF assms(1)] by blast
  have run: "frame_loop fps s (fs @ [g]) = Inr s'"
    by (simp add: frame_loop_snoc[OF assms(6)] r1 st)
  have "sampled (frame_count s1)" using assms(8) fc1 by simp
  then have "last_person_present (detect s1 g)" using assms(9) by (rule detect_present)
  note ps = present_step[OF st this]
  from r1 st run np off1 al1 lg1 ps show ?thesis by auto
qed

theorem silent_recovery_witness:
  "\<exists>s1 s'. frame_loop 30 (start_state (new_analyzer 2 60)
                \<lparr>isOpened = True, CAP_PROP_FPS = 30, frames = []\<rparr>)
              (replicate 5 \<lparr>results = [[]], key_q = False\<rparr>) = Inr s1
     \<and> frame_loop 30 (start_state (new_analyzer 2 60)
                \<lparr>isOpened = True, CAP_PROP_FPS = 30, frames = []\<rparr>)
              (replicate 5 \<lparr>results = [[]], key_q = False\<rparr>
                 @ [\<lparr>results = [[\<lparr>cls = 0, xyxy = (0, 0, 100, 100)\<rparr>]], key_q = False\<rparr>]) = Inr s'
     \<and> \<not> last_person_present s1
     \<and> off_camera_frames (stats s1) = 5
     \<and> log s1 = []
     \<and> last_person_present s'
     \<and> alerts s' = []
     \<and> off_camera_start_frame s' = - 1"
proof -
  let ?fs = "replicate 5 \<lparr>results = [[]], key_q = False\<rparr>"
  let ?g = "\<lparr>results = [[\<lparr>cls = 0, xyxy = (0, 0, 100, 100)\<rparr>]], key_q = False\<rparr>"
  let ?s = "start_state (new_analyzer 2 60) \<lparr>isOpened = True, CAP_PROP_FPS = 30, frames = []\<rparr>"
  have h1: "(30::rat) \<noteq> 0" by simp
  have h2: "0 \<le> frame_count ?s" by (simp add: scenario_start)
  have h3: "off_camera_start_frame ?s = - 1" by (simp add: scenario_start)
  have h4: "\<not> sampled (frame_count ?s) \<longrightarrow> \<not> last_person_present ?s"
    by (simp add: scenario_start)
  have h5: "\<forall>i<length ?fs. sampled (frame_count ?s + int i)
           \<longrightarrow> person_boxes_of (results (?fs ! i)) = []"
    by (rule empty_frames_absent)
  have h6: "\<forall>x\<in>set ?fs. \<not> key_q x" by (rule empty_frames_absent)
  have h7: "int (length ?fs) \<le> alert_duration_frames ?s" by (simp add: scenario_start)
  have h8: "sampled (frame_count ?s + int (length ?fs))"
    by (simp add: scenario_start sampled_def FRAME_SKIP_def)
  have h9: "person_boxes_of (results ?g) \<noteq> []"
    by (simp add: person_boxes_of_def eval_defs)
  have m: "mobile_in_hand_start_frame ?s = - 1" "log ?s = []"
    by (simp_all add: start_state_def new_analyzer_def)
  have s: "sampled (frame_count ?s)"
    by (simp add: scenario_start sampled_def FRAME_SKIP_def)
  from silent_recovery[OF h1 h2 h3 h4 h5 h6 h7 h8 h9] show ?thesis
    using m s by (auto simp: scenario_start)
qed

subsection \<open>The mobile-in-hand tracker\<close>

lemma in_hand_person: "mobile_in_hand_of rs \<Longrightarrow> person_boxes_of rs \<noteq> []"
  using no_person_no_mobile by blast

lemma mobile_tracker_follows_flag:
  assumes "process_frame fps s f = Inr s'" and "0 \<le> frame_count s"
  shows "(mobile_in_hand_start_frame s' \<noteq> - 1) = last_mobile_in_hand s'"
  using process_frame_fields(4,6)[OF assms(1)] assms(2)
  by (auto simp: mobile_start_next_def detect_fields)

lemma detect_mobile_true:
  assumes "sampled (frame_count s) \<longrightarrow> mobile_in_hand_of (results f)"
    and "\<not> sampled (frame_count s) \<longrightarrow> last_mobile_in_hand s \<and> last_person_present s"
  shows "last_mobile_in_hand (detect s f)" and "last_person_present (detect s f)"
  using assms by (auto simp: detect_def sampled_def dest: in_hand_person)

lemma detect_mobile_false:
  assumes "sampled (frame_count s) \<longrightarrow> \<not> mobile_in_hand_of (results f)"
    and "\<not> sampled (frame_count s) \<longrightarrow> \<not> last_mobile_in_hand s"
  shows "\<not> last_mobile_in_hand (detect s f)"
  using assms by (auto simp: detect_def sampled_def)

lemma mobile_step:
  assumes run: "process_frame fps s f = Inr s'"
  shows "last_mobile_in_hand (detect s f) \<Longrightarrow> mobile_in_hand_start_frame s = - 1 \<Longrightarrow>
           mobile_in_hand_start_frame s' = frame_count s
           \<and> mobile_events s' = mobile_events s @ [mobile_start_event (frame_count s)]"
    and "last_mobile_in_hand (detect s f) \<Longrightarrow> mobile_in_hand_start_frame s \<noteq> - 1 \<Longrightarrow>
           mobile_in_hand_start_frame s' = mobile_in_hand_start_frame s
           \<and> mobile_events s' = mobile_events s"
    and "\<not> last_mobile_in_hand (detect s f) \<Longrightarrow> mobile_in_hand_start_frame s \<noteq> - 1 \<Longrightarrow>
           mobile_in_hand_start_frame s' = - 1
           \<and> mobile_events s' = mobile_events s @
                [mobile_end_event (frame_count s)
                   (of_int (frame_count s - mobile_in_hand_start_frame s) / fps)]"
    and "\<not> last_mobile_in_hand (detect s f) \<Longrightarrow> mobile_in_hand_start_frame s = - 1 \<Longrightarrow>
           mobile_in_hand_start_frame s' = - 1 \<and> mobile_events s' = mobile_events s"
  using process_frame_fields(6)[OF run] mobile_events_step[OF run]
  by (simp_all add: mobile_start_next_def mobile_events_of_def detect_fields)

lemma prefix_hyp:
  assumes "\<forall>i<length (fs @ [f]). A i \<longrightarrow> B ((fs @ [f]) ! i)"
  shows "\<forall>i<length fs. A i \<longrightarrow> B (fs ! i)" and "A (length fs) \<longrightarrow> B f"
proof -
  show "\<forall>i<length fs. A i \<longrightarrow> B (fs ! i)"
  proof (intro allI impI)
    fix i assume i: "i < length fs" and a: "A i"
    from assms i a have "B ((fs @ [f]) ! i)" by simp
    with i show "B (fs ! i)" by (simp add: nth_append)
  qed
  have "length fs < length (fs @ [f])" by simp
  with assms have "A (length fs) \<longrightarrow> B ((fs @ [f]) ! length fs)" by blast
  then show "A (length fs) \<longrightarrow> B f" by simp
qed

lemma mobile_idle_run:
  assumes fps: "fps \<noteq> 0"
    and idle: "mobile_in_hand_start_frame s = - 1"
    and cache: "\<not> sampled (frame_count s) \<longrightarrow> \<not> last_mobile_in_hand s"
    and off: "\<forall>i<length fs. sampled (frame_count s + int i)
                \<longrightarrow> \<not> mobile_in_hand_of (results (fs ! i))"
    and nq: "\<forall>x\<in>set fs. \<not> key_q x"
  shows "\<exists>s'. frame_loop fps s fs = Inr s'
     \<and> frame_count s' = frame_count s + int (length fs)
     \<and> mobile_in_hand_start_frame s' = - 1
     \<and> (\<not> sampled (frame_count s') \<longrightarrow> \<not> last_mobile_in_hand s')
     \<and> mobile_events s' = mobile_events s"
  using off nq
proof (induction fs rule: rev_induct)
  case Nil
  show ?case using idle cache by simp
next
  case (snoc f fs)
  note hyp = prefix_hyp[where A = "\<lambda>i. sampled (frame_count s + int i)"
      and B = "\<lambda>x. \<not> mobile_in_hand_of (results x)", OF snoc.prems(1)]
  from snoc.prems(2) have nq': "\<forall>x\<in>set fs. \<not> key_q x" by simp
  from snoc.IH[OF hyp(1) nq'] obtain s1 where
      run1: "frame_loop fps s fs = Inr s1"
    and fc1: "frame_count s1 = frame_count s + int (length fs)"
    and ms1: "mobile_in_hand_start_frame s1 = - 1"
    and ca1: "\<not> sampled (frame_count s1) \<longrightarrow> \<not> last_mobile_in_hand s1"
    and ev1: "mobile_events s1 = mobile_events s"
    by blast
  obtain s' where st: "process_frame fps s1 f = Inr s'"
    using process_frame_total[OF fps] by blast
  have run: "frame_loop fps s (fs @ [f]) = Inr s'"
    by (simp add: frame_loop_snoc[OF nq'] run1 st)
  have nm: "\<not> last_mobile_in_hand (detect s1 f)"
    by (rule detect_mobile_false) (use hyp(2) ca1 fc1 in simp_all)
  note fl = process_frame_fields[OF st]
  from mobile_step(4)[OF st nm ms1] fl(1,4) nm fc1 ev1 run show ?case by auto
qed

lemma mobile_hold_run:
  assumes fps: "fps \<noteq> 0" and fc0: "0 \<le> frame_count s"
    and idle: "mobile_in_hand_start_frame s = - 1"
    and smp: "sampled (frame_count s)"
    and on: "\<forall>i<length fs. sampled (frame_count s + int i)
                \<longrightarrow> mobile_in_hand_of (results (fs ! i))"
    and nq: "\<forall>x\<in>set fs. \<not> key_q x"
    and ne: "fs \<noteq> []"
  shows "\<exists>s'. frame_loop fps s fs = Inr s'
     \<and> frame_count s' = frame_count s + int (length fs)
     \<and> mobile_in_hand_start_frame s' = frame_count s
     \<and> last_mobile_in_hand s' \<and> last_person_present s'
     \<and> mobile_events s' = mobile_events s @ [mobile_start_event (frame_count s)]
     \<and> alerts s' = alerts s
     \<and> mobile_in_hand_frames (stats s') = mobile_in_hand_frames (stats s) + int (length fs)"
  using on nq ne
proof (induction fs rule: rev_induct)
  case Nil
  then show ?case by simp
next
  case (snoc f fs)
  note hyp = prefix_hyp[where A = "\<lambda>i. sampled (frame_count s + int i)"
      and B = "\<lambda>x. mobile_in_hand_of (results x)", OF snoc.prems(1)]
  from snoc.prems(2) have nq': "\<forall>x\<in>set fs. \<not> key_q x" by simp
  show ?case
  proof (cases "fs = []")
    case True
    obtain s' where st: "process_frame fps s f = Inr s'"
      using process_frame_total[OF fps] by blast
    have run: "frame_loop fps s (fs @ [f]) = Inr s'"
      using st True by simp
    have d: "last_mobile_in_hand (detect s f)" "last_person_present (detect s f)"
      by (rule detect_mobile_true; use hyp(2) smp True in simp)+
    note fl = process_frame_fields[OF st]
    from mobile_step(1)[OF st d(1) idle] present_step[OF st d(2)] fl(1,3,4,12) d run True
    show ?thesis by auto
  next
    case False
    from snoc.IH[OF hyp(1) nq' False] obtain s1 where
        run1: "frame_loop fps s fs = Inr s1"
      and fc1: "frame_count s1 = frame_count s + int (length fs)"
      and ms1: "mobile_in_hand_start_frame s1 = frame_count s"
      and lm1: "last_mobile_in_hand s1" and lp1: "last_person_present s1"
      and ev1: "mobile_events s1 = mobile_events s @ [mobile_start_event (frame_count s)]"
      and al1: "alerts s1 = alerts s"
      and mf1: "mobile_in_hand_frames (stats s1) = mobile_in_hand_frames (stats s) + int (length fs)"
      by blast
    obtain s' where st: "process_frame fps s1 f = Inr s'"
      using process_frame_total[OF fps] by blast
    have run: "frame_loop fps s (fs @ [f]) = Inr s'"
      by (simp add: frame_loop_snoc[OF nq'] run1 st)
    have d: "last_mobile_in_hand (detect s1 f)" "last_person_present (detect s1 f)"
      by (rule detect_mobile_true; use hyp(2) lm1 lp1 fc1 in simp)+
    have act: "mobile_in_hand_start_frame s1 \<noteq> - 1" using ms1 fc0 by simp
    note fl = process_frame_fields[OF st]
    from mobile_step(2)[OF st d(1) act] present_step[OF st d(2)] fl(1,3,4,12) d run
      fc1 ms1 ev1 al1 mf1
    show ?thesis by auto
  qed
qed


text \<open>
  Claim C2. Let the mobile tracker be idle (the condition was false) at a sampled frame,
  let the mobile-in-hand condition hold on the next \<open>K = length fs\<close> frames (the detector
  reports it on the sampled ones) and let the detector report it false on the sampled frame
  \<open>g\<close> that follows. Then the run logs exactly two mobile events: \<open>mobile_in_hand_start\<close>
  on the first true frame with duration 0, and \<open>mobile_in_hand_end\<close> on the frame \<open>g\<close>
  with duration \<open>K / fps\<close>; after any number \<open>j\<close> of the true frames only the start
  event has been logged (nothing on the intermediate frames), and the tracker is idle again
  at the end.
\<close>

theorem mobile_debounce:
  assumes "fps \<noteq> 0" and "0 \<le> frame_count s"
    and "mobile_in_hand_start_frame s = - 1"
    and "sampled (frame_count s)"
    and "\<forall>i<length fs. sampled (frame_count s + int i)
           \<longrightarrow> mobile_in_hand_of (results (fs ! i))"
    and "\<forall>x\<in>set fs. \<not> key_q x"
    and "fs \<noteq> []"
    and "sampled (frame_count s + int (length fs))"
    and "\<not> mobile_in_hand_of (results g)"
  shows "\<exists>s'. frame_loop fps s (fs @ [g]) = Inr s'
     \<and> mobile_events s' = mobile_events s @
          [mobile_start_event (frame_count s),
           mobile_end_event (frame_count s + int (length fs)) (of_int (int (length fs)) / fps)]
     \<and> mobile_in_hand_start_frame s' = - 1
     \<and> (\<forall>j. 0 < j \<and> j \<le> length fs \<longrightarrow>
          (\<exists>sj. frame_loop fps s (take j fs) = Inr sj
             \<and> mobile_events sj = mobile_events s @ [mobile_start_event (frame_count s)]
             \<and> mobile_in_hand_start_frame sj = frame_count s
             \<and> mobile_in_hand_frames (stats sj) = mobile_in_hand_frames (stats s) + int j))"
proof -
  from mobile_hold_run[OF assms(1-7)] obtain s1 where
      run1: "frame_loop fps s fs = Inr s1"
    and fc1: "frame_count s1 = frame_count s + int (length fs)"
    and ms1: "mobile_in_hand_start_frame s1 = frame_count s"
    and ev1: "mobile_events s1 = mobile_events s @ [mobile_start_event (frame_count s)]"
    by blast
  obtain s' where st: "process_frame fps s1 g = Inr s'"
    using process_frame_total[OF assms(1)] by blast
  have run: "frame_loop fps s (fs @ [g]) = Inr s'"
    by (simp add: frame_loop_snoc[OF assms(6)] run1 st)
  have nm: "\<not> last_mobile_in_hand (detect s1 g)"
    by (rule detect_mobile_false) (use assms(8,9) fc1 in simp_all)
  have act: "mobile_in_hand_start_frame s1 \<noteq> - 1" using ms1 assms(2) by simp
  from mobile_step(3)[OF st nm act] have
      end_ev: "mobile_events s' = mobile_events s @
          [mobile_start_event (frame_count s),
           mobile_end_event (frame_count s + int (length fs)) (of_int (int (length fs)) / fps)]"
    and idle: "mobile_in_hand_start_frame s' = - 1"
    unfolding ev1 fc1 ms1 by simp_all
  have pre: "\<exists>sj. frame_loop fps s (take j fs) = Inr sj
             \<and> mobile_events sj = mobile_events s @ [mobile_start_event (frame_count s)]
             \<and> mobile_in_hand_start_frame sj = frame_count s
             \<and> mobile_in_hand_frames (stats sj) = mobile_in_hand_frames (stats s) + int j"
    if j: "0 < j \<and> j \<le> length fs" for j
  proof -
    have len: "length (take j fs) = j" using j by simp
    have on: "\<forall>i<length (take j fs). sampled (frame_count s + int i)
           \<longrightarrow> mobile_in_hand_of (results (take j fs ! i))"
      using assms(5) j by simp
    have nq: "\<forall>x\<in>set (take j fs). \<not> key_q x"
      using assms(6) by (auto dest: in_set_takeD)
    have ne: "take j fs \<noteq> []" using j assms(7) by auto
    from mobile_hold_run[OF assms(1-4) on nq ne] show ?thesis
      unfolding len by blast
  qed
  from run end_ev idle pre show ?thesis by blast
qed

lemma mobile_scenario_frames:
  "\<not> mobile_in_hand_of (results \<lparr>results = [[\<lparr>cls = 0, xyxy = (0, 0, 100, 100)\<rparr>]], key_q = False\<rparr>)"
  "mobile_in_hand_of (results \<lparr>results = [[\<lparr>cls = 0, xyxy = (0, 0, 100, 100)\<rparr>,
                                          \<lparr>cls = 67, xyxy = (40, 30, 60, 50)\<rparr>]], key_q = False\<rparr>)"
  by (simp_all add: mobile_in_hand_of_def person_boxes_of_def eval_defs horizontal_prox_def
        vertical_prox_def touches_def intersection_area_def py_mobile_zone_def py_int_def)

theorem mobile_debounce_witness:
  "\<exists>s' st. analyze_video (new_analyzer 30 60)
       \<lparr>isOpened = True, CAP_PROP_FPS = 10,
         frames = replicate 10 \<lparr>results = [[\<lparr>cls = 0, xyxy = (0, 0, 100, 100)\<rparr>]], key_q = False\<rparr>
           @ (replicate 30 \<lparr>results = [[\<lparr>cls = 0, xyxy = (0, 0, 100, 100)\<rparr>,
                                         \<lparr>cls = 67, xyxy = (40, 30, 60, 50)\<rparr>]], key_q = False\<rparr>
              @ [\<lparr>results = [[\<lparr>cls = 0, xyxy = (0, 0, 100, 100)\<rparr>]], key_q = False\<rparr>])\<rparr>
         = Inr (s', Some st)
     \<and> mobile_events s' = [mobile_start_event 10, mobile_end_event 40 3]
     \<and> mobile_in_hand_start_frame s' = - 1"
proof -
  let ?idle = "\<lparr>results = [[\<lparr>cls = 0, xyxy = (0, 0, 100, 100)\<rparr>]], key_q = False\<rparr>"
  let ?mob = "\<lparr>results = [[\<lparr>cls = 0, xyxy = (0, 0, 100, 100)\<rparr>,
                           \<lparr>cls = 67, xyxy = (40, 30, 60, 50)\<rparr>]], key_q = False\<rparr>"
  let ?A = "replicate 10 ?idle" and ?B = "replicate 30 ?mob"
  let ?v = "\<lparr>isOpened = True, CAP_PROP_FPS = 10, frames = ?A @ (?B @ [?idle])\<rparr>"
  let ?s = "start_state (new_analyzer 30 60) ?v"
  have fps: "working_fps (new_analyzer 30 60) ?v = 10" by (simp add: working_fps_def)
  have s0: "mobile_in_hand_start_frame ?s = - 1" "frame_count ?s = 0" "mobile_events ?s = []"
    by (simp_all add: start_state_def new_analyzer_def mobile_events_def)
  have nz: "(10::rat) \<noteq> 0" by simp
  have a1: "\<not> sampled (frame_count ?s) \<longrightarrow> \<not> last_mobile_in_hand ?s"
    by (simp add: s0 sampled_def FRAME_SKIP_def)
  have a2: "\<forall>i<length ?A. sampled (frame_count ?s + int i)
                \<longrightarrow> \<not> mobile_in_hand_of (results (?A ! i))"
    using mobile_scenario_frames(1) by simp
  have a3: "\<forall>x\<in>set ?A. \<not> key_q x" by simp
  from mobile_idle_run[OF nz s0(1) a1 a2 a3] obtain s10 where
      r10: "frame_loop 10 ?s ?A = Inr s10"
    and fc10: "frame_count s10 = 10"
    and ms10: "mobile_in_hand_start_frame s10 = - 1"
    and ev10: "mobile_events s10 = []"
    by (auto simp: s0)
  have h2: "0 \<le> frame_count s10" by (simp add: fc10)
  have h4: "sampled (frame_count s10)" by (simp add: fc10 sampled_def FRAME_SKIP_def)
  have h5: "\<forall>i<length ?B. sampled (frame_count s10 + int i)
           \<longrightarrow> mobile_in_hand_of (results (?B ! i))"
    using mobile_scenario_frames(2) by simp
  have h6: "\<forall>x\<in>set ?B. \<not> key_q x" by simp
  have h7: "?B \<noteq> []" by simp
  have h8: "sampled (frame_count s10 + int (length ?B))"
    by (simp add: fc10 sampled_def FRAME_SKIP_def)
  from mobile_debounce[OF nz h2 ms10 h4 h5 h6 h7 h8 mobile_scenario_frames(1)] obtain s' where
      r: "frame_loop 10 s10 (?B @ [?idle]) = Inr s'"
    and ev: "mobile_events s' = mobile_events s10 @
          [mobile_start_event (frame_count s10),
           mobile_end_event (frame_count s10 + int (length ?B)) (of_int (int (length ?B)) / 10)]"
    and idle: "mobile_in_hand_start_frame s' = - 1"
    by blast
  have "frame_loop 10 ?s (?A @ (?B @ [?idle])) = Inr s'"
    by (simp only: frame_loop_append[OF a3] r10 r sum.case)
  then have "analyze_video (new_analyzer 30 60) ?v = Inr (s', Some (stats s'))"
    by (simp add: analyze_video_opened fps)
  moreover have "mobile_events s' = [mobile_start_event 10, mobile_end_event 40 3]"
    using ev by (simp add: ev10 fc10)
  ultimately show ?thesis using idle by blast
qed

subsection \<open>Divisions inside the loop\<close>

lemma alert_time_str_zero_fps:
  "\<not> last_person_present s \<Longrightarrow> alert_time_str 0 s = Inl ZeroDivisionError"
  by (simp add: alert_time_str_def py_truediv_def Let_def)

lemma zero_fps_raises_when_absent:
  assumes "\<not> last_person_present (detect s f)"
  shows "process_frame 0 s f = Inl ZeroDivisionError"
proof (cases "process_frame 0 s f")
  case (Inl e)
  then show ?thesis by (cases e) simp
next
  case (Inr s')
  let ?s0 = "s\<lparr>stats := (stats s)\<lparr>total_video_frames := frame_count s + 1\<rparr>\<rparr>"
  have c0: "last_person_present (detect ?s0 f) = last_person_present (detect s f)"
    by (simp add: detect_def)
  from Inr obtain s2 s3 l t where
      s2: "mobile_duration 0 (detect ?s0 f) = Inr s2"
    and s3: "activity_inference 0 s2 = Inr (s3, l)"
    and t: "alert_time_str 0 s3 = Inr t"
    by (auto simp: process_frame_def Let_def split: sum.splits prod.splits)
  have "last_person_present s3 = last_person_present (detect s f)"
    using activity_inference_result[OF s3] mobile_duration_result'[OF s2] c0 by simp
  with assms have "alert_time_str 0 s3 = Inl ZeroDivisionError"
    by (simp add: alert_time_str_zero_fps)
  with t show ?thesis by simp
qed

text \<open>
  The claim C8 as stated fails: not every duration computation guards its divisor. The
  durations computed inside the frame loop divide by the working frame rate without a
  guard; with \<open>TARGET_FPS = 0\<close> and a video that reports a frame rate of 0, the first
  frame without a person raises \<open>ZeroDivisionError\<close>.
\<close>

theorem loop_duration_unguarded_counterexample:
  "analyze_video (new_analyzer 30 0)
     \<lparr>isOpened = True, CAP_PROP_FPS = 0, frames = [\<lparr>results = [[]], key_q = False\<rparr>]\<rparr>
   = Inl ZeroDivisionError"
proof -
  let ?v = "\<lparr>isOpened = True, CAP_PROP_FPS = 0, frames = [\<lparr>results = [[]], key_q = False\<rparr>]\<rparr>"
  let ?s = "start_state (new_analyzer 30 0) ?v"
  have fps: "working_fps (new_analyzer 30 0) ?v = 0"
    by (simp add: working_fps_def new_analyzer_def)
  have "\<not> last_person_present (detect ?s \<lparr>results = [[]], key_q = False\<rparr>)"
    by (simp add: detect_def start_state_def new_analyzer_def person_boxes_of_def)
  from zero_fps_raises_when_absent[OF this] show ?thesis
    by (simp add: analyze_video_opened fps)
qed

subsection \<open>The frame-rate fallback\<close>

lemma frame_loop_config:
  "frame_loop fps s fs = Inr s' \<Longrightarrow>
     current_fps (stats s') = current_fps (stats s)
     \<and> alert_duration_frames s' = alert_duration_frames s"
proof (induction fs arbitrary: s)
  case Nil
  then show ?case by simp
next
  case (Cons f fs)
  from Cons.prems obtain s1 where s1: "process_frame fps s f = Inr s1"
    and rest: "s' = s1 \<or> frame_loop fps s1 fs = Inr s'"
    by (auto split: sum.splits if_splits)
  note fl = process_frame_fields(2,14)[OF s1]
  from rest show ?case
  proof
    assume "s' = s1"
    with fl show ?thesis by simp
  next
    assume "frame_loop fps s1 fs = Inr s'"
    from Cons.IH[OF this] fl show ?thesis by simp
  qed
qed

lemma analyze_video_closed: "\<not> isOpened v \<Longrightarrow> analyze_video s v = Inr (s, None)"
  by (simp add: analyze_video_def)

text \<open>
  Claim C10. When the video reports a frame rate of 0, \<open>analyze_video\<close> substitutes
  \<open>TARGET_FPS\<close> before the loop: the loop runs with \<open>TARGET_FPS\<close> as its frame rate,
  from a state whose \<open>current_fps\<close> is \<open>TARGET_FPS\<close> and whose alert threshold is
  \<open>int(TARGET_FPS * ALERT_DURATION_SECONDS)\<close>, and the returned statistics carry that
  frame rate (a non-zero reported rate is used as it is). Whenever \<open>TARGET_FPS\<close> is
  non-zero the working frame rate is non-zero, so no frame of the loop raises on any of
  its divisions by it, from any state, and \<open>analyze_video\<close> returns.
\<close>

theorem fps_fallback_no_division_error:
  assumes "TARGET_FPS s \<noteq> 0"
  shows "(\<not> isOpened v \<longrightarrow> analyze_video s v = Inr (s, None))
     \<and> (isOpened v \<longrightarrow>
          (\<exists>s'. analyze_video s v = Inr (s', Some (stats s'))
             \<and> (CAP_PROP_FPS v = 0 \<longrightarrow>
                  frame_loop (TARGET_FPS s)
                    (s\<lparr> stats := (stats s)\<lparr>current_fps := TARGET_FPS s\<rparr>,
                        alert_duration_frames :=
                          py_int (TARGET_FPS s * ALERT_DURATION_SECONDS s) \<rparr>)
                    (frames v) = Inr s'
                  \<and> current_fps (stats s') = TARGET_FPS s
                  \<and> alert_duration_frames s' = py_int (TARGET_FPS s * ALERT_DURATION_SECONDS s))
             \<and> (CAP_PROP_FPS v \<noteq> 0 \<longrightarrow>
                  frame_loop (CAP_PROP_FPS v)
                    (s\<lparr> stats := (stats s)\<lparr>current_fps := CAP_PROP_FPS v\<rparr>,
                        alert_duration_frames :=
                          py_int (CAP_PROP_FPS v * ALERT_DURATION_SECONDS s) \<rparr>)
                    (frames v) = Inr s'
                  \<and> current_fps (stats s') = CAP_PROP_FPS v
                  \<and> alert_duration_frames s' = py_int (CAP_PROP_FPS v * ALERT_DURATION_SECONDS s))))
     \<and> (CAP_PROP_FPS v = 0 \<longrightarrow> working_fps s v = TARGET_FPS s)
     \<and> working_fps s v \<noteq> 0
     \<and> (\<forall>u f. \<exists>u'. process_frame (working_fps s v) u f = Inr u')
     \<and> (\<exists>r. analyze_video s v = Inr r)"
proof -
  let ?fps = "working_fps s v"
  have nz: "?fps \<noteq> 0" using assms by (rule working_fps_nonzero)
  have fb: "CAP_PROP_FPS v = 0 \<longrightarrow> ?fps = TARGET_FPS s"
    and cap: "CAP_PROP_FPS v \<noteq> 0 \<longrightarrow> ?fps = CAP_PROP_FPS v"
    by (simp_all add: working_fps_def)
  have steps: "\<forall>u f. \<exists>u'. process_frame ?fps u f = Inr u'"
    using process_frame_total[OF nz] by blast
  have closed: "\<not> isOpened v \<longrightarrow> analyze_video s v = Inr (s, None)"
    by (simp add: analyze_video_closed)
  have opened: "\<exists>s'. analyze_video s v = Inr (s', Some (stats s'))
        \<and> frame_loop ?fps (start_state s v) (frames v) = Inr s'
        \<and> current_fps (stats s') = ?fps
        \<and> alert_duration_frames s' = py_int (?fps * ALERT_DURATION_SECONDS s)"
    if op: "isOpened v"
  proof -
    obtain s' where run: "frame_loop ?fps (start_state s v) (frames v) = Inr s'"
      using frame_loop_total[OF nz] by blast
    have av: "analyze_video s v = Inr (s', Some (stats s'))"
      by (simp add: analyze_video_opened[OF op] run)
    from frame_loop_config[OF run] have
        "current_fps (stats s') = ?fps"
        "alert_duration_frames s' = py_int (?fps * ALERT_DURATION_SECONDS s)"
      by (simp_all add: start_state_def)
    with av run show ?thesis by blast
  qed
  have ret: "\<exists>r. analyze_video s v = Inr r"
    using closed opened by (cases "isOpened v") auto
  have main: "isOpened v \<longrightarrow>
          (\<exists>s'. analyze_video s v = Inr (s', Some (stats s'))
             \<and> (CAP_PROP_FPS v = 0 \<longrightarrow>
                  frame_loop (TARGET_FPS s)
                    (s\<lparr> stats := (stats s)\<lparr>current_fps := TARGET_FPS s\<rparr>,
                        alert_duration_frames :=
                          py_int (TARGET_FPS s * ALERT_DURATION_SECONDS s) \<rparr>)
                    (frames v) = Inr s'
                  \<and> current_fps (stats s') = TARGET_FPS s
                  \<and> alert_duration_frames s' = py_int (TARGET_FPS s * ALERT_DURATION_SECONDS s))
             \<and> (CAP_PROP_FPS v \<noteq> 0 \<longrightarrow>
                  frame_loop (CAP_PROP_FPS v)
                    (s\<lparr> stats := (stats s)\<lparr>current_fps := CAP_PROP_FPS v\<rparr>,
                        alert_duration_frames :=
                          py_int (CAP_PROP_FPS v * ALERT_DURATION_SECONDS s) \<rparr>)
                    (frames v) = Inr s'
                  \<and> current_fps (stats s') = CAP_PROP_FPS v
                  \<and> alert_duration_frames s' = py_int (CAP_PROP_FPS v * ALERT_DURATION_SECONDS s)))"
  proof
    assume op: "isOpened v"
    from opened[OF op] obtain s' where
        av: "analyze_video s v = Inr (s', Some (stats s'))"
      and run: "frame_loop ?fps (start_state s v) (frames v) = Inr s'"
      and cf: "current_fps (stats s') = ?fps"
      and th: "alert_duration_frames s' = py_int (?fps * ALERT_DURATION_SECONDS s)"
      by blast
    show "\<exists>s'. analyze_video s v = Inr (s', Some (stats s'))
             \<and> (CAP_PROP_FPS v = 0 \<longrightarrow>
                  frame_loop (TARGET_FPS s)
                    (s\<lparr> stats := (stats s)\<lparr>current_fps := TARGET_FPS s\<rparr>,
                        alert_duration_frames :=
                          py_int (TARGET_FPS s * ALERT_DURATION_SECONDS s) \<rparr>)
                    (frames v) = Inr s'
                  \<and> current_fps (stats s') = TARGET_FPS s
                  \<and> alert_duration_frames s' = py_int (TARGET_FPS s * ALERT_DURATION_SECONDS s))
             \<and> (CAP_PROP_FPS v \<noteq> 0 \<longrightarrow>
                  frame_loop (CAP_PROP_FPS v)
                    (s\<lparr> stats := (stats s)\<lparr>current_fps := CAP_PROP_FPS v\<rparr>,
                        alert_duration_frames :=
                          py_int (CAP_PROP_FPS v * ALERT_DURATION_SECONDS s) \<rparr>)
                    (frames v) = Inr s'
                  \<and> current_fps (stats s') = CAP_PROP_FPS v
                  \<and> alert_duration_frames s' = py_int (CAP_PROP_FPS v * ALERT_DURATION_SECONDS s))"
    proof (intro exI[of _ s'] conjI impI)
      show "analyze_video s v = Inr (s', Some (stats s'))" by (rule av)
    next
      assume z: "CAP_PROP_FPS v = 0"
      then have e: "?fps = TARGET_FPS s" using fb by simp
      show "frame_loop (TARGET_FPS s)
                    (s\<lparr> stats := (stats s)\<lparr>current_fps := TARGET_FPS s\<rparr>,
                        alert_duration_frames :=
                          py_int (TARGET_FPS s * ALERT_DURATION_SECONDS s) \<rparr>)
                    (frames v) = Inr s'"
        using run unfolding start_state_def e .
      show "current_fps (stats s') = TARGET_FPS s" using cf e by simp
      show "alert_duration_frames s' = py_int (TARGET_FPS s * ALERT_DURATION_SECONDS s)"
        using th e by simp
    next
      assume "CAP_PROP_FPS v \<noteq> 0"
      then have e: "?fps = CAP_PROP_FPS v" using cap by simp
      show "frame_loop (CAP_PROP_FPS v)
                    (s\<lparr> stats := (stats s)\<lparr>current_fps := CAP_PROP_FPS v\<rparr>,
                        alert_duration_frames :=
                          py_int (CAP_PROP_FPS v * ALERT_DURATION_SECONDS s) \<rparr>)
                    (frames v) = Inr s'"
        using run unfolding start_state_def e .
      show "current_fps (stats s') = CAP_PROP_FPS v" using cf e by simp
      show "alert_duration_frames s' = py_int (CAP_PROP_FPS v * ALERT_DURATION_SECONDS s)"
        using th e by simp
    qed
  qed
  from closed main fb nz steps ret show ?thesis by blast
qed


theorem fps_fallback_witness:
  "TARGET_FPS (new_analyzer (1 / 30) 60) \<noteq> 0
   \<and> (\<exists>s'. analyze_video (new_analyzer (1 / 30) 60)
          \<lparr>isOpened = True, CAP_PROP_FPS = 0,
            frames = replicate 3 \<lparr>results = [[]], key_q = False\<rparr>\<rparr> = Inr (s', Some (stats s'))
        \<and> current_fps (stats s') = 60
        \<and> alert_duration_frames s' = 2
        \<and> alerts s' = [missing_alert_event 2 (1 / 30)])"
proof -
  let ?n = "new_analyzer (1 / 30) 60"
  let ?fs = "replicate 3 \<lparr>results = [[]], key_q = False\<rparr>"
  let ?v = "\<lparr>isOpened = True, CAP_PROP_FPS = 0, frames = ?fs\<rparr>"
  let ?s0 = "start_state ?n ?v"
  have h: "TARGET_FPS ?n \<noteq> 0" by (simp add: new_analyzer_def)
  have tf: "TARGET_FPS ?n = 60" "ALERT_DURATION_SECONDS ?n = 1 / 30"
    by (simp_all add: new_analyzer_def)
  have th2: "py_int (60 * (1 / 30)) = 2" by (simp add: py_int_def)
  have st: "?s0 = ?n\<lparr> stats := (stats ?n)\<lparr>current_fps := TARGET_FPS ?n\<rparr>,
                      alert_duration_frames :=
                        py_int (TARGET_FPS ?n * ALERT_DURATION_SECONDS ?n) \<rparr>"
    by (simp add: start_state_def working_fps_def)
  from fps_fallback_no_division_error[OF h, of ?v] obtain s' where
      av: "analyze_video ?n ?v = Inr (s', Some (stats s'))"
    and run: "frame_loop (TARGET_FPS ?n) ?s0 (frames ?v) = Inr s'"
    and cf: "current_fps (stats s') = TARGET_FPS ?n"
    and th: "alert_duration_frames s' = py_int (TARGET_FPS ?n * ALERT_DURATION_SECONDS ?n)"
    unfolding st by auto
  have run': "frame_loop 60 ?s0 ?fs = Inr s'" using run by (simp add: tf)
  have s0: "alert_duration_frames ?s0 = 2" "frame_count ?s0 = 0"
      "off_camera_start_frame ?s0 = - 1" "\<not> last_person_present ?s0" "alerts ?s0 = []"
    unfolding st tf th2 by (simp_all add: new_analyzer_def alerts_def)
  have a1: "(60::rat) \<noteq> 0" and a3: "(0::int) \<le> 2" and a4: "(3::nat) = nat 2 + 1"
    by simp_all
  have a5: "0 \<le> frame_count ?s0" by (simp add: s0)
  have a7: "\<not> sampled (frame_count ?s0) \<longrightarrow> \<not> last_person_present ?s0" by (simp add: s0)
  from absent_run[OF a1 s0(1) a3 a4 a5 s0(3) a7 empty_frames_absent] obtain s2 where
      r2: "frame_loop 60 ?s0 ?fs = Inr s2"
    and al: "alerts s2 = alerts ?s0 @
          map (\<lambda>k. missing_alert_event (frame_count ?s0 + int k * (2 + 1) + 2) (of_int 2 / 60))
            [0..<length ?fs div 3]"
    by blast
  from run' r2 have eq: "s2 = s'" by simp
  have one: "[0..<length ?fs div 3] = [0]" by simp
  have "alerts s' = [missing_alert_event 2 (1 / 30)]"
    using al unfolding eq one s0 by simp
  with h av cf th show ?thesis unfolding tf th2 by blast
qed

end
